theory Spec2Isabelle
  imports Main "HOL-Library.Word"
begin

unbundle bit_operations_syntax

section \<open>Flow Director rule bookkeeping (src/lib/dpdkdevice.cc)\<close>

text \<open>
  The Flow Director keeps, for every DPDK port, a \<^verbatim>\<open>FlowDirector\<close> object in the
  static table \<^verbatim>\<open>_dev_flow_dir\<close>.  Each object owns a vector \<^verbatim>\<open>_rule_list\<close> of
  pointers to heap-allocated \<^verbatim>\<open>port_flow\<close> objects.  Pointers are modelled as
  optional addresses (\<open>None\<close> is the null pointer) into an explicit store of live
  objects, so that \<^verbatim>\<open>delete\<close> and dangling pointers are visible.

  \<^verbatim>\<open>_dev_flow_dir[port_id]\<close> on a port without an entry yields a null
  \<^verbatim>\<open>FlowDirector *\<close>; every function below dereferences it at once, which the model
  reports as \<open>NullDeref\<close>.
\<close>

type_synonym addr = nat

datatype error = NullDeref | UseAfterFree | DoubleFree

record port_flow =
  rule_id :: "32 word"
  flow :: nat

record FlowDirector =
  active :: bool
  verbose :: bool
  rule_list :: "addr option list"

datatype event =
    ErrRuleNotFound "8 word" "32 word"
  | RteFlowDestroy "8 word" nat
  | ErrComplain "8 word"
  | MsgRuleDestroyed "8 word" "32 word"
  | MsgNothingToFlush "8 word"
  | RteFlowFlush "8 word"
  | MsgNicFlushed "8 word"
  | MsgNothingToClean "8 word"
  | MsgFlushedFromMemory "8 word" "32 word"

text \<open>
  The process state: the port table, the store of live \<^verbatim>\<open>port_flow\<close> objects, and
  the trace of calls into DPDK and into the error handler, oldest first.
\<close>

record fd_state =
  dev_flow_dir :: "8 word \<rightharpoonup> FlowDirector"
  heap :: "addr \<rightharpoonup> port_flow"
  trace :: "event list"

text \<open>
  The DPDK driver is outside the repository: the return codes of
  \<^verbatim>\<open>rte_flow_destroy\<close> and \<^verbatim>\<open>rte_flow_flush\<close> and the value of \<^verbatim>\<open>rte_errno\<close> are
  parameters.
\<close>

record rte_env =
  rte_flow_destroy :: "8 word \<Rightarrow> nat \<Rightarrow> int"
  rte_flow_flush :: "8 word \<Rightarrow> int"
  rte_errno :: int

definition emit :: "event \<Rightarrow> fd_state \<Rightarrow> fd_state" where
  "emit ev st = st\<lparr>trace := trace st @ [ev]\<rparr>"

text \<open>
  The search loop of \<^verbatim>\<open>flow_rule_get\<close>:
  \<^verbatim>\<open>for (i = 0; i < port_rules.size(); i++)
    if (rule_id == port_rules[i]->rule_id) return port_rules[i];
return 0;\<close>
\<close>

fun find_rule :: "(addr \<rightharpoonup> port_flow) \<Rightarrow> 32 word \<Rightarrow> addr option list \<Rightarrow> error + addr option" where
  "find_rule h rid [] = Inr None"
| "find_rule h rid (p # ps) =
     (case p of
        None \<Rightarrow> Inl NullDeref
      | Some a \<Rightarrow>
          (case h a of
             None \<Rightarrow> Inl UseAfterFree
           | Some r \<Rightarrow> if rid = rule_id r then Inr (Some a) else find_rule h rid ps))"

definition flow_rule_get :: "fd_state \<Rightarrow> 8 word \<Rightarrow> 32 word \<Rightarrow> error + addr option" where
  "flow_rule_get st port rid =
     (case dev_flow_dir st port of
        None \<Rightarrow> Inl NullDeref
      | Some fd \<Rightarrow>
          (let port_rules = rule_list fd in
           if port_rules \<noteq> [] then Inr None
           else find_rule (heap st) rid port_rules))"

text \<open>
  \<^verbatim>\<open>flow_rule_complain\<close> reports the error and returns \<^verbatim>\<open>-rte_errno\<close>.
\<close>

definition flow_rule_complain :: "rte_env \<Rightarrow> fd_state \<Rightarrow> 8 word \<Rightarrow> int \<times> fd_state" where
  "flow_rule_complain env st port = (- rte_errno env, emit (ErrComplain port) st)"

definition flow_rule_delete ::
  "rte_env \<Rightarrow> fd_state \<Rightarrow> 8 word \<Rightarrow> 32 word \<Rightarrow> error + (bool \<times> fd_state)" where
  "flow_rule_delete env st port rid =
     (case dev_flow_dir st port of
        None \<Rightarrow> Inl NullDeref
      | Some fd \<Rightarrow>
          if \<not> active fd then Inr (False, st)
          else
            (case flow_rule_get st port rid of
               Inl e \<Rightarrow> Inl e
             | Inr None \<Rightarrow> Inr (False, emit (ErrRuleNotFound port rid) st)
             | Inr (Some a) \<Rightarrow>
                 (case heap st a of
                    None \<Rightarrow> Inl UseAfterFree
                  | Some r \<Rightarrow>
                      (let st1 = emit (RteFlowDestroy port (flow r)) st in
                       if rte_flow_destroy env port (flow r) < 0
                       then Inr (False, snd (flow_rule_complain env st1 port))
                       else
                         (let st2 = emit (MsgRuleDestroyed port (rule_id r)) st1
                          in Inr (True, st2\<lparr>heap := (heap st2)(a := None)\<rparr>))))))"

definition flow_rules_count :: "fd_state \<Rightarrow> 8 word \<Rightarrow> error + 32 word" where
  "flow_rules_count st port =
     (case dev_flow_dir st port of
        None \<Rightarrow> Inl NullDeref
      | Some fd \<Rightarrow>
          if \<not> active fd then Inr 0
          else (let port_rules = rule_list fd in Inr (of_nat (length port_rules))))"

text \<open>
  The deletion loop of \<^verbatim>\<open>memory_clean\<close>, over the local copy of the vector:
  \<^verbatim>\<open>for (i = 0; i < port_rules.size(); i++)
    if (port_rules[i] != NULL) { delete (port_rules[i]); rules_flushed++; }\<close>
  Deleting an address that is no longer live is a double free.
\<close>

fun delete_rules ::
  "addr option list \<Rightarrow> (addr \<rightharpoonup> port_flow) \<Rightarrow> 32 word \<Rightarrow> error + ((addr \<rightharpoonup> port_flow) \<times> 32 word)" where
  "delete_rules [] h n = Inr (h, n)"
| "delete_rules (None # ps) h n = delete_rules ps h n"
| "delete_rules (Some a # ps) h n =
     (case h a of
        None \<Rightarrow> Inl DoubleFree
      | Some r \<Rightarrow> delete_rules ps (h(a := None)) (n + 1))"

text \<open>
  \<^verbatim>\<open>memory_clean\<close> works on \<^verbatim>\<open>port_rules\<close>, a by-value copy of the stored vector;
  \<^verbatim>\<open>port_rules.clear()\<close> empties that local copy only, so the model never writes
  \<open>rule_list\<close>.
\<close>

definition memory_clean :: "fd_state \<Rightarrow> 8 word \<Rightarrow> error + (32 word \<times> fd_state)" where
  "memory_clean st port =
     (case dev_flow_dir st port of
        None \<Rightarrow> Inl NullDeref
      | Some fd \<Rightarrow>
          (let port_rules = rule_list fd in
           if port_rules = []
           then Inr (0, if verbose fd then emit (MsgNothingToClean port) st else st)
           else
             (case delete_rules port_rules (heap st) 0 of
                Inl e \<Rightarrow> Inl e
              | Inr (h', rules_flushed) \<Rightarrow>
                  (let st1 = st\<lparr>heap := h'\<rparr>;
                       st2 = (if verbose fd
                              then emit (MsgFlushedFromMemory port rules_flushed) st1
                              else st1)
                   in Inr (rules_flushed, st2)))))"

definition flow_rules_flush :: "rte_env \<Rightarrow> fd_state \<Rightarrow> 8 word \<Rightarrow> error + (32 word \<times> fd_state)" where
  "flow_rules_flush env st port =
     (case dev_flow_dir st port of
        None \<Rightarrow> Inl NullDeref
      | Some fd \<Rightarrow>
          if \<not> active fd
          then Inr (0, if verbose fd then emit (MsgNothingToFlush port) st else st)
          else
            (let port_rules = rule_list fd in
             if port_rules = []
             then Inr (0, if verbose fd then emit (MsgNothingToFlush port) st else st)
             else
               (let st1 = emit (RteFlowFlush port) st in
                if rte_flow_flush env port \<noteq> 0
                then (case flow_rule_complain env st1 port of
                        (r, st2) \<Rightarrow> Inr (word_of_int r, st2))
                else
                  (let st2 = (if verbose fd then emit (MsgNicFlushed port) st1 else st1)
                   in memory_clean st2 port))))"

text \<open>
  A rule list is healthy when its non-null pointers are live and pairwise distinct;
  on such a list the deletion loop runs to its end.
\<close>

fun live_distinct :: "(addr \<rightharpoonup> port_flow) \<Rightarrow> addr option list \<Rightarrow> bool" where
  "live_distinct h [] = True"
| "live_distinct h (None # ps) = live_distinct h ps"
| "live_distinct h (Some a # ps) = (h a \<noteq> None \<and> Some a \<notin> set ps \<and> live_distinct h ps)"

section \<open>IP header helpers (src/elements/middlebox/ipelement.cc)\<close>

text \<open>
  A packet is its byte buffer together with the offset of the network header, the
  distance between \<^verbatim>\<open>packet->ip_header()\<close> and \<^verbatim>\<open>packet->data()\<close>.  The fields of
  \<^verbatim>\<open>click_ip\<close> sit at the IPv4 offsets: the low nibble of byte 0 is \<^verbatim>\<open>ip_hl\<close>,
  bytes 2 and 3 are \<^verbatim>\<open>ip_len\<close>, bytes 10 and 11 are \<^verbatim>\<open>ip_sum\<close>.

  The source reads and writes 16-bit fields in host byte order and converts with
  \<^verbatim>\<open>ntohs\<close> and \<^verbatim>\<open>htons\<close>; the host's byte order is the parameter \<open>be\<close>
  (\<open>True\<close> on a big-endian host).
\<close>

type_synonym u8 = "8 word"
type_synonym u16 = "16 word"
type_synonym u32 = "32 word"

record Packet =
  data :: "u8 list"
  network_header :: nat

definition native16 :: "bool \<Rightarrow> u8 \<Rightarrow> u8 \<Rightarrow> u16" where
  "native16 be b0 b1 =
     (if be then push_bit 8 (ucast b0) OR ucast b1
      else push_bit 8 (ucast b1) OR ucast b0)"

definition load_u16 :: "bool \<Rightarrow> u8 list \<Rightarrow> nat \<Rightarrow> u16" where
  "load_u16 be m i = native16 be (m ! i) (m ! (i + 1))"

definition store_u16 :: "bool \<Rightarrow> u8 list \<Rightarrow> nat \<Rightarrow> u16 \<Rightarrow> u8 list" where
  "store_u16 be m i w =
     (if be then m[i := ucast (drop_bit 8 w), i + 1 := ucast w]
      else m[i := ucast w, i + 1 := ucast (drop_bit 8 w)])"

definition bswap16 :: "u16 \<Rightarrow> u16" where
  "bswap16 w = push_bit 8 w OR drop_bit 8 w"

definition htons :: "bool \<Rightarrow> u16 \<Rightarrow> u16" where
  "htons be w = (if be then w else bswap16 w)"

definition ntohs :: "bool \<Rightarrow> u16 \<Rightarrow> u16" where
  "ntohs be w = (if be then w else bswap16 w)"

definition ip_hl :: "Packet \<Rightarrow> u8" where
  "ip_hl p = data p ! network_header p AND 15"

definition ip_len :: "bool \<Rightarrow> Packet \<Rightarrow> u16" where
  "ip_len be p = load_u16 be (data p) (network_header p + 2)"

definition ip_sum :: "bool \<Rightarrow> Packet \<Rightarrow> u16" where
  "ip_sum be p = load_u16 be (data p) (network_header p + 10)"

definition packetTotalLength :: "bool \<Rightarrow> Packet \<Rightarrow> u16" where
  "packetTotalLength be p = ntohs be (ip_len be p)"

text \<open>
  \<^verbatim>\<open>setPacketTotalLength\<close> takes an \<^verbatim>\<open>unsigned\<close>; \<^verbatim>\<open>htons\<close> takes a 16-bit argument,
  so the length is truncated first.
\<close>

definition setPacketTotalLength :: "bool \<Rightarrow> Packet \<Rightarrow> u32 \<Rightarrow> Packet" where
  "setPacketTotalLength be p len =
     p\<lparr>data := store_u16 be (data p) (network_header p + 2) (htons be (ucast len))\<rparr>"

text \<open>
  Modelled from the spec: \<^verbatim>\<open>click_in_cksum\<close> is not part of the sources at hand; the
  specification names it the standard one's-complement algorithm.  It adds the buffer's
  16-bit words, read in host order, into a 32-bit accumulator (an odd last byte is the
  first byte of a zeroed word), folds the carries back twice and returns the complement
  of the low 16 bits.
\<close>

fun in_cksum_loop :: "bool \<Rightarrow> u8 list \<Rightarrow> u32 \<Rightarrow> u32" where
  "in_cksum_loop be (b0 # b1 # rest) acc = in_cksum_loop be rest (acc + ucast (native16 be b0 b1))"
| "in_cksum_loop be [b0] acc = acc + ucast (native16 be b0 0)"
| "in_cksum_loop be [] acc = acc"

text \<open>
  Modelled from the spec: the end of \<^verbatim>\<open>click_in_cksum\<close>, which is not part of the
  sources at hand.  The carries above bit 16 are added back twice; the result is the
  complement, truncated to 16 bits.
\<close>

definition in_cksum_fold :: "u32 \<Rightarrow> u16" where
  "in_cksum_fold acc =
     (let sum1 = (acc AND 0xffff) + drop_bit 16 acc;
          sum2 = sum1 + drop_bit 16 sum1
      in ucast (NOT sum2))"

text \<open>
  Modelled from the spec: \<^verbatim>\<open>click_in_cksum(addr, len)\<close>, not part of the sources at
  hand, on the \<open>len\<close> bytes at \<open>addr\<close>: the word sum from zero, then the fold.
\<close>

definition click_in_cksum :: "bool \<Rightarrow> u8 list \<Rightarrow> u16" where
  "click_in_cksum be bytes = in_cksum_fold (in_cksum_loop be bytes 0)"

text \<open>
  \<^verbatim>\<open>computeChecksum\<close>: \<^verbatim>\<open>hlen = ip_hl << 2\<close>; the field \<^verbatim>\<open>ip_sum\<close> is set to zero and
  then to the checksum of the \<open>hlen\<close> bytes that start at the IP header.  (The source
  also computes \<^verbatim>\<open>plen\<close>, which it never uses.)
\<close>

definition ip_header_bytes :: "Packet \<Rightarrow> nat \<Rightarrow> u8 list" where
  "ip_header_bytes p hlen = take hlen (drop (network_header p) (data p))"

definition computeChecksum :: "bool \<Rightarrow> Packet \<Rightarrow> Packet" where
  "computeChecksum be p =
     (let hlen = unat (ip_hl p) * 4;
          p1 = p\<lparr>data := store_u16 be (data p) (network_header p + 10) 0\<rparr>;
          cksum = click_in_cksum be (ip_header_bytes p1 hlen)
      in p1\<lparr>data := store_u16 be (data p1) (network_header p1 + 10) cksum\<rparr>)"

text \<open>
  A valid IP header has a header length of at least five words and lies inside the
  buffer.
\<close>

definition valid_ip_header :: "Packet \<Rightarrow> bool" where
  "valid_ip_header p \<longleftrightarrow>
     5 \<le> unat (ip_hl p) \<and> network_header p + unat (ip_hl p) * 4 \<le> length (data p)"

text \<open>
  The carry fold of \<^verbatim>\<open>click_in_cksum\<close> on natural numbers: the two folding steps
  followed by the truncation to 16 bits.
\<close>

definition fold16 :: "nat \<Rightarrow> nat" where
  "fold16 n = (let g = n mod 65536 + n div 65536 in (g + g div 65536) mod 65536)"

section \<open>HTTP handler interface (src/elements/userlevel/httpserver.cc)\<close>

text \<open>
  The router and its handlers are outside the sources at hand and enter as parameters:
  \<^verbatim>\<open>Router::find\<close>, \<^verbatim>\<open>Router::root_element\<close>, \<^verbatim>\<open>Router::handler\<close>, and for each
  handler its flags and the results of \<^verbatim>\<open>call_read\<close> and \<^verbatim>\<open>call_write\<close>.
\<close>

type_synonym element = nat

record Handler =
  visible :: bool
  readable :: bool
  writable :: bool
  f_read_param :: bool
  call_read :: "element \<Rightarrow> string option \<Rightarrow> string"
  call_write :: "string \<Rightarrow> element \<Rightarrow> int"

record Router =
  find :: "string \<Rightarrow> element option"
  root_element :: element
  handler :: "element \<Rightarrow> string \<Rightarrow> Handler option"

text \<open>The operations of Click's \<^verbatim>\<open>String\<close> that the request parser uses.\<close>

definition find_left :: "string \<Rightarrow> char \<Rightarrow> int" where
  "find_left s c = (if c \<in> set s then int (length (takeWhile (\<lambda>x. x \<noteq> c) s)) else - 1)"

definition substring :: "string \<Rightarrow> int \<Rightarrow> int \<Rightarrow> string" where
  "substring s pos len = take (nat len) (drop (nat pos) s)"

definition substring_from :: "string \<Rightarrow> int \<Rightarrow> string" where
  "substring_from s pos = drop (nat pos) s"

text \<open>
  The element walk: the \<^verbatim>\<open>do { ... } while (1)\<close> loop over the path components.  Its
  state is the element found so far, its name, the prefix \<^verbatim>\<open>fullpath\<close> and the rest of
  the path.
\<close>

function resolve_element ::
  "Router \<Rightarrow> element option \<Rightarrow> string \<Rightarrow> string \<Rightarrow> string \<Rightarrow> element option \<times> string \<times> string" where
  "resolve_element r e ename fullpath path =
     (let pos = find_left path CHR ''/'';
          en = (if pos = - 1 then path else substring path 0 pos)
      in case find r (fullpath @ en) of
           None \<Rightarrow> (e, ename, path)
         | Some et \<Rightarrow>
             if pos = - 1 then (Some et, en, [])
             else resolve_element r (Some et) en (en @ ''/'') (substring_from path (pos + 1)))"
  by pat_completeness auto
termination
  by (relation "measure (\<lambda>(r, e, ename, fullpath, path). length path)")
     (auto simp: find_left_def substring_from_def split: if_splits dest!: length_pos_if_in_set)

declare resolve_element.simps [simp del]

datatype http_call = CallRead element string "string option" | CallWrite element string string

text \<open>
  One invocation of \<^verbatim>\<open>ahc_echo\<close> either returns \<^verbatim>\<open>MHD_YES\<close> without queueing a
  response, leaving the string behind \<^verbatim>\<open>*con_cls\<close> as given, or queues a response with a
  status and a body after the handler calls listed.  (A failure of libmicrohttpd to
  allocate the response is outside the model.)
\<close>

datatype http_result = Continue string | Respond nat string "http_call list"

record Request =
  url :: string
  http_method :: string
  upload_data :: string
  con_cls :: "string option"

text \<open>
  The request target: the element (the root element when the path names none), the
  element's name, the handler name and the parameter, as \<^verbatim>\<open>ahc_echo\<close> computes them
  before it looks at the method.  \<open>Inl\<close> is the early 404 answer.
\<close>

definition request_target ::
  "Router \<Rightarrow> string \<Rightarrow> (nat \<times> string) + (element \<times> string \<times> string \<times> string)" where
  "request_target r u =
     (let path0 = drop 1 u;
          path1 = (case path0 of [] \<Rightarrow> path0
                   | c # cs \<Rightarrow> if c = CHR ''/'' then substring_from path0 1 else path0)
      in case resolve_element r None [] [] path1 of
           (e, ename, path) \<Rightarrow>
             (let pos = find_left path CHR ''/'';
                  hname = (if pos = - 1 then path else substring path 0 pos);
                  param = (if pos = - 1 then [] else substring_from path (pos + 1))
              in case e of
                   Some e' \<Rightarrow> Inr (e', ename, hname, param)
                 | None \<Rightarrow>
                     if hname = [] \<or> ename = []
                     then Inr (root_element r, ename, hname, param)
                     else Inl (404, ''No element named '' @ [CHR 0x27] @ ename @ [CHR 0x27])))"

definition bad_handler :: "string \<Rightarrow> string \<Rightarrow> string \<Rightarrow> http_result" where
  "bad_handler u hname ename =
     Respond 404
       (''Invalid path '' @ [CHR 0x27] @ u @ [CHR 0x27] @ '' or no '' @ hname @ '' in '' @ ename) []"

definition ahc_echo :: "Router \<Rightarrow> Request \<Rightarrow> http_result" where
  "ahc_echo r req =
     (case con_cls req of
        None \<Rightarrow> Continue []
      | Some acc \<Rightarrow>
          (case request_target r (url req) of
             Inl (status, body) \<Rightarrow> Respond status body []
           | Inr (e, ename, hname0, param) \<Rightarrow>
               (let hname = (if hname0 = [] \<and> http_method req = ''GET''
                             then (if length ename > 0 then ''handlers'' else ''list'')
                             else hname0)
                in if http_method req = ''GET'' then
                     (case handler r e hname of
                        None \<Rightarrow> bad_handler (url req) hname ename
                      | Some h \<Rightarrow>
                          if visible h then
                            (if readable h then
                               (if f_read_param h
                                then Respond 200 (call_read h e (Some param))
                                       [CallRead e hname (Some param)]
                                else Respond 200 (call_read h e None) [CallRead e hname None])
                             else Respond 400 ''This request is not readable'' [])
                          else bad_handler (url req) hname ename)
                   else if http_method req = ''POST'' then
                     (case handler r e hname of
                        None \<Rightarrow> bad_handler (url req) hname ename
                      | Some h \<Rightarrow>
                          if visible h then
                            (if length (upload_data req) \<noteq> 0
                             then Continue (acc @ upload_data req)
                             else if writable h then
                               Respond 200
                                 (if call_write h acc e = 0 then ''success'' else ''error'')
                                 [CallWrite e hname acc]
                             else Respond 400 ''This request is not writable'' [])
                          else bad_handler (url req) hname ename)
                   else if http_method req = ''DELETE'' then
                     (let hname' = ''delete_'' @ hname in
                      case handler r e hname' of
                        None \<Rightarrow> bad_handler (url req) hname' ename
                      | Some h \<Rightarrow>
                          if visible h then
                            Respond 200
                              (if call_write h param e = 0 then ''success'' else ''error'')
                              [CallWrite e hname' param]
                          else bad_handler (url req) hname' ename)
                   else Respond 405 ''Unsupported method'' [])))"

definition status_of :: "http_result \<Rightarrow> nat option" where
  "status_of res = (case res of Continue _ \<Rightarrow> None | Respond st _ _ \<Rightarrow> Some st)"

definition body_of :: "http_result \<Rightarrow> string option" where
  "body_of res = (case res of Continue _ \<Rightarrow> None | Respond _ b _ \<Rightarrow> Some b)"

definition calls_of :: "http_result \<Rightarrow> http_call list" where
  "calls_of res = (case res of Continue _ \<Rightarrow> [] | Respond _ _ cs \<Rightarrow> cs)"

section \<open>Modification list (src/include/click/modificationlist.hh)\<close>

text \<open>
  The header declares \<^verbatim>\<open>struct ModificationNode\<close> (an unsigned position, a signed
  offset, read here through \<open>sint\<close>, and the link to the next node) and the class with its list head and its
  \<^verbatim>\<open>committed\<close> flag.  The linked list is a HOL list; allocation from the node pool is
  assumed to succeed.
\<close>

type_synonym i32 = "32 word"

record ModificationNode =
  position :: u32
  offset :: i32

record ModificationList =
  head :: "ModificationNode list"
  committed :: bool

definition isCommitted :: "ModificationList \<Rightarrow> bool" where
  "isCommitted ml = committed ml"

text \<open>
  Modelled from the spec: the body of \<^verbatim>\<open>sameSign\<close> is not in the sources at hand; the
  header documents it as true when both integers have the same sign.
\<close>

definition sameSign :: "i32 \<Rightarrow> i32 \<Rightarrow> bool" where
  "sameSign a b \<longleftrightarrow> (sint a < 0) = (sint b < 0)"

text \<open>
  Modelled from the spec: the body of \<^verbatim>\<open>mergeNodes\<close> is not in the sources at hand.
  One scan; two adjacent nodes at the same position with offsets of the same sign
  coalesce into one node with the sum; with offsets of opposite signs they cancel in
  part, and the node is removed when the sum is zero.
\<close>

fun mergeNodes :: "ModificationNode list \<Rightarrow> ModificationNode list" where
  "mergeNodes (a # b # rest) =
     (if position a = position b then
        (if sameSign (offset a) (offset b)
         then mergeNodes (a\<lparr>offset := offset a + offset b\<rparr> # rest)
         else if offset a + offset b = 0 then mergeNodes rest
         else mergeNodes (a\<lparr>offset := offset a + offset b\<rparr> # rest))
      else a # mergeNodes (b # rest))"
| "mergeNodes [a] = [a]"
| "mergeNodes [] = []"

text \<open>
  Modelled from the spec: the insertion step of \<^verbatim>\<open>addModification\<close> is not in the
  sources at hand.  The new node goes into the list in position-sorted order, behind
  the nodes whose position is not larger.
\<close>

fun insertNode :: "ModificationNode \<Rightarrow> ModificationNode list \<Rightarrow> ModificationNode list" where
  "insertNode n [] = [n]"
| "insertNode n (m # ms) =
     (if position m \<le> position n then m # insertNode n ms else n # m # ms)"

text \<open>
  Modelled from the spec: the body of \<^verbatim>\<open>addModification\<close> is not in the sources at
  hand.  A committed list refuses the edit and returns false; otherwise the edit is
  inserted in position-sorted order, \<^verbatim>\<open>mergeNodes\<close> runs, and the result is true.
\<close>

definition addModification :: "ModificationList \<Rightarrow> u32 \<Rightarrow> i32 \<Rightarrow> bool \<times> ModificationList" where
  "addModification ml pos off =
     (if committed ml then (False, ml)
      else (True, ml\<lparr>head :=
              mergeNodes (insertNode \<lparr>position = pos, offset = off\<rparr> (head ml))\<rparr>))"

section \<open>Byte-stream maintainer (specification, section 4.3)\<close>

text \<open>
  The maintainer's sources are not at hand; its mapping is modelled from the
  specification's formulas.  A committed entry is a pair of a position in the original
  sequence space and a signed byte count.  The formulas are stated over the integers,
  without reduction modulo \<open>2 ^ 32\<close>, and so is the model.
\<close>

type_synonym entry = "int \<times> int"

text \<open>
  Modelled from the spec: the class \<^verbatim>\<open>ByteStreamMaintainer\<close>
  (\<^verbatim>\<open>click/bytestreammaintainer.hh\<close>) is missing from the sources at hand.
  \<^verbatim>\<open>cum(x)\<close> is the sum of the deltas of all entries whose position is at most \<open>x\<close>.
\<close>

definition cum :: "entry list \<Rightarrow> int \<Rightarrow> int" where
  "cum S x = sum_list (map snd (filter (\<lambda>e. fst e \<le> x) S))"

text \<open>
  Modelled from the spec: \<^verbatim>\<open>ByteStreamMaintainer::mapSeq\<close> is missing from the sources
  at hand.  \<^verbatim>\<open>mapSeq(x) = x + cum(x)\<close>.
\<close>

definition mapSeq :: "entry list \<Rightarrow> int \<Rightarrow> int" where
  "mapSeq S x = x + cum S x"

text \<open>
  Modelled from the spec: the reverse mapping of \<^verbatim>\<open>ByteStreamMaintainer\<close> is missing
  from the sources at hand.  \<^verbatim>\<open>mapSeqRev(y)\<close> is the smallest \<open>x\<close> with
  \<open>mapSeq(x) \<ge> y\<close>.  Below every entry position \<open>mapSeq\<close> is the identity, and from
  the last position on it adds the total of all deltas, so the smallest such \<open>x\<close> lies
  between the two bounds searched here.
\<close>

definition mapSeqRev :: "entry list \<Rightarrow> int \<Rightarrow> int" where
  "mapSeqRev S y =
     (let lo = fold min (map fst S) y;
          hi = fold max (map fst S) (y - sum_list (map snd S))
      in case List.find (\<lambda>x. y \<le> mapSeq S x) [lo..hi] of
           Some x \<Rightarrow> x
         | None \<Rightarrow> hi)"

text \<open>
  Modelled from the spec: the invariant of the entry list of \<^verbatim>\<open>ByteStreamMaintainer\<close>,
  whose sources are missing.  Positions increase strictly and consecutive entries never
  have offsets of the same sign.
\<close>

fun entries_inv :: "entry list \<Rightarrow> bool" where
  "entries_inv (a # b # rest) \<longleftrightarrow>
     fst a < fst b \<and> sgn (snd a) \<noteq> sgn (snd b) \<and> entries_inv (b # rest)"
| "entries_inv [a] \<longleftrightarrow> True"
| "entries_inv [] \<longleftrightarrow> True"

text \<open>
  Modelled from the spec: the removed regions of \<^verbatim>\<open>ByteStreamMaintainer\<close>, whose
  sources are missing.  An entry \<open>(p, d)\<close> with \<open>d < 0\<close> removes the \<open>- d\<close> original
  bytes at the positions \<open>p, \<dots>, p - d - 1\<close>; this is its removed region.
\<close>

definition in_removed_region :: "entry list \<Rightarrow> int \<Rightarrow> bool" where
  "in_removed_region S x \<longleftrightarrow> (\<exists>e \<in> set S. snd e < 0 \<and> fst e \<le> x \<and> x < fst e - snd e)"

text \<open>
  Edits committed in the original space remove every original byte at most once: the
  region of each removal ends at or before the position of every removal behind it in
  the list, so that removed regions are pairwise disjoint.
\<close>

fun regions_disjoint :: "entry list \<Rightarrow> bool" where
  "regions_disjoint [] \<longleftrightarrow> True"
| "regions_disjoint (a # rest) \<longleftrightarrow>
     (snd a < 0 \<longrightarrow> (\<forall>e \<in> set rest. snd e < 0 \<longrightarrow> fst a - snd a \<le> fst e)) \<and>
     regions_disjoint rest"

section \<open>Example inputs\<close>

text \<open>
  Port 0 has an active Flow Director with two installed rules, with the IDs 7 and 8.
\<close>

definition fd_example :: FlowDirector where
  "fd_example = \<lparr>active = True, verbose = True, rule_list = [Some 1, Some 2]\<rparr>"

definition st_example :: fd_state where
  "st_example =
     \<lparr>dev_flow_dir = [0 \<mapsto> fd_example],
      heap = [1 \<mapsto> \<lparr>rule_id = 7, flow = 100\<rparr>, 2 \<mapsto> \<lparr>rule_id = 8, flow = 200\<rparr>],
      trace = []\<rparr>"

definition env_example :: rte_env where
  "env_example = \<lparr>rte_flow_destroy = (\<lambda>p f. 0), rte_flow_flush = (\<lambda>p. 0), rte_errno = 0\<rparr>"

text \<open>
  A packet whose buffer starts with a 20-byte IPv4 header (total length 115, protocol
  UDP, 192.168.0.1 to 192.168.0.199) with a zero checksum field, followed by four
  payload bytes.  The correct header checksum is \<open>0xb861\<close>.
\<close>

definition pkt_example :: Packet where
  "pkt_example =
     \<lparr>data = [0x45, 0x00, 0x00, 0x73, 0x00, 0x00, 0x40, 0x00, 0x40, 0x11,
              0x00, 0x00, 0xc0, 0xa8, 0x00, 0x01, 0xc0, 0xa8, 0x00, 0xc7,
              0xde, 0xad, 0xbe, 0xef],
      network_header = 0\<rparr>"

text \<open>
  A router with one element named \<^verbatim>\<open>fd\<close> whose handler \<^verbatim>\<open>delete_rules\<close> accepts the
  parameter \<^verbatim>\<open>3\<close>, and a DELETE request for \<^verbatim>\<open>/fd/rules/3\<close> on its second call.
\<close>

definition handler_example :: Handler where
  "handler_example =
     \<lparr>visible = True, readable = False, writable = True, f_read_param = False,
      call_read = (\<lambda>e p. []),
      call_write = (\<lambda>s e. if s = ''3'' then 0 else - 1)\<rparr>"

definition router_example :: Router where
  "router_example =
     \<lparr>find = (\<lambda>n. if n = ''fd'' then Some 1 else None),
      root_element = 0,
      handler = (\<lambda>e n. if e = 1 \<and> n = ''delete_rules'' then Some handler_example else None)\<rparr>"

definition req_example :: Request where
  "req_example = \<lparr>url = ''/fd/rules/3'', http_method = ''DELETE'', upload_data = [], con_cls = Some []\<rparr>"

text \<open>
  A router whose only element has the compound name \<^verbatim>\<open>a/b\<close>, with a visible handler
  \<^verbatim>\<open>delete_h\<close>, and a DELETE request for \<^verbatim>\<open>/a/b/h/3\<close> on its second call.
\<close>

definition router_nested :: Router where
  "router_nested =
     \<lparr>find = (\<lambda>n. if n = ''a/b'' then Some 1 else None),
      root_element = 0,
      handler = (\<lambda>e n. if e = 1 \<and> n = ''delete_h'' then Some handler_example else None)\<rparr>"

definition req_nested :: Request where
  "req_nested = \<lparr>url = ''/a/b/h/3'', http_method = ''DELETE'', upload_data = [], con_cls = Some []\<rparr>"

text \<open>
  A modification list of an uncommitted packet: two bytes inserted at position 5, one
  byte removed at position 9.
\<close>

definition ml_example :: ModificationList where
  "ml_example = \<lparr>head = [\<lparr>position = 5, offset = 2\<rparr>, \<lparr>position = 9, offset = - 1\<rparr>],
                 committed = False\<rparr>"

text \<open>
  Entry lists of the byte-stream maintainer: one with an insertion of four bytes and a
  removal of three, and one with an insertion of four bytes and a removal of a single
  byte.
\<close>

definition S_example :: "entry list" where
  "S_example = [(1011, 4), (1030, - 3)]"

definition S_small :: "entry list" where
  "S_small = [(1011, 4), (1030, - 1)]"


section \<open>Flow Director: theorems\<close>

lemma emit_simps [simp]:
  "dev_flow_dir (emit ev st) = dev_flow_dir st"
  "heap (emit ev st) = heap st"
  "trace (emit ev st) = trace st @ [ev]"
  by (simp_all add: emit_def)

text \<open>
  C1.  \<^verbatim>\<open>flow_rule_get\<close> never returns a rule object.  The guard returns the null
  pointer when the port's rule list is non-empty, and the search over an empty list
  finds nothing: on every port that has a Flow Director the result is the null pointer
  for every rule ID, also when a live rule with that ID is in the list.  (On a port
  without a Flow Director the call dereferences a null pointer and returns nothing.)
\<close>

theorem flow_rule_get_never_finds:
  "flow_rule_get st port rid \<noteq> Inr (Some a) \<and>
   (dev_flow_dir st port = Some fd \<longrightarrow> flow_rule_get st port rid = Inr None)"
  by (simp add: flow_rule_get_def Let_def split: option.splits)

text \<open>
  In the example the search loop, run on the stored list, finds rule 7 at address 1;
  \<^verbatim>\<open>flow_rule_get\<close> still answers with the null pointer.
\<close>

theorem flow_rule_get_never_finds_witness:
  "dev_flow_dir st_example 0 = Some fd_example \<and>
   find_rule (heap st_example) 7 (rule_list fd_example) = Inr (Some 1) \<and>
   flow_rule_get st_example 0 7 = Inr None"
  using flow_rule_get_never_finds [of st_example 0 7 1 fd_example]
  by (simp add: st_example_def fd_example_def)

text \<open>
  C9.  \<^verbatim>\<open>flow_rule_delete\<close> never returns true.  On every port that has a Flow
  Director it returns false for every rule ID and destroys nothing: on an inactive port
  it returns at once; on an active port \<^verbatim>\<open>flow_rule_get\<close> yields the null pointer, the
  "not found" error is reported, and neither \<^verbatim>\<open>rte_flow_destroy\<close> nor \<^verbatim>\<open>delete\<close> is
  reached, so the store of rule objects is unchanged.
\<close>

theorem flow_rule_delete_always_false:
  "flow_rule_delete env st port rid \<noteq> Inr (True, st'') \<and>
   (dev_flow_dir st port = Some fd \<longrightarrow>
      (\<exists>st'. flow_rule_delete env st port rid = Inr (False, st') \<and>
         heap st' = heap st \<and> dev_flow_dir st' = dev_flow_dir st \<and>
         trace st' = (if active fd then trace st @ [ErrRuleNotFound port rid] else trace st)))"
  by (simp add: flow_rule_delete_def flow_rule_get_def Let_def split: option.splits)

theorem flow_rule_delete_always_false_witness:
  "dev_flow_dir st_example 0 = Some fd_example \<and>
   find_rule (heap st_example) 7 (rule_list fd_example) = Inr (Some 1) \<and>
   (\<exists>st'. flow_rule_delete env_example st_example 0 7 = Inr (False, st') \<and>
      heap st' = heap st_example \<and> trace st' = [ErrRuleNotFound 0 7])"
proof -
  have d: "dev_flow_dir st_example 0 = Some fd_example"
    by (simp add: st_example_def)
  have f: "find_rule (heap st_example) 7 (rule_list fd_example) = Inr (Some 1)"
    by (simp add: st_example_def fd_example_def)
  obtain st' where "flow_rule_delete env_example st_example 0 7 = Inr (False, st')"
    and "heap st' = heap st_example"
    and "trace st' = (if active fd_example then trace st_example @ [ErrRuleNotFound 0 7]
                      else trace st_example)"
    using flow_rule_delete_always_false [of env_example st_example 0 7 _ fd_example] d by blast
  then have "\<exists>st'. flow_rule_delete env_example st_example 0 7 = Inr (False, st') \<and>
      heap st' = heap st_example \<and> trace st' = [ErrRuleNotFound 0 7]"
    by (simp add: st_example_def fd_example_def)
  with d f show ?thesis by simp
qed

lemma live_distinct_remove:
  "live_distinct h ps \<Longrightarrow> Some a \<notin> set ps \<Longrightarrow> live_distinct (h(a := None)) ps"
  by (induction h ps rule: live_distinct.induct) auto

lemma delete_rules_live:
  "live_distinct h ps \<Longrightarrow>
   delete_rules ps h n =
     Inr (\<lambda>a. if Some a \<in> set ps then None else h a,
          n + of_nat (length (filter (\<lambda>p. p \<noteq> None) ps)))"
proof (induction ps h n rule: delete_rules.induct)
  case (1 h n)
  then show ?case by simp
next
  case (2 ps h n)
  then show ?case by simp
next
  case (3 a ps h n)
  from "3.prems" obtain r where r: "h a = Some r" by auto
  have live: "live_distinct (h(a := None)) ps"
    using "3.prems" by (simp add: live_distinct_remove)
  have "delete_rules (Some a # ps) h n = delete_rules ps (h(a := None)) (n + 1)"
    using r by simp
  also have "\<dots> = Inr (\<lambda>b. if Some b \<in> set ps then None else (h(a := None)) b,
          n + 1 + of_nat (length (filter (\<lambda>p. p \<noteq> None) ps)))"
    using "3.IH" [OF r live] .
  finally show ?case by (auto simp: fun_eq_iff)
qed

lemma memory_clean_frame:
  assumes "memory_clean st port = Inr (n, st')"
  shows "dev_flow_dir st' = dev_flow_dir st"
proof (cases "dev_flow_dir st port")
  case None
  then show ?thesis using assms by (simp add: memory_clean_def)
next
  case (Some fd)
  show ?thesis
  proof (cases "rule_list fd = []")
    case True
    then show ?thesis using assms Some by (auto simp: memory_clean_def)
  next
    case False
    show ?thesis
    proof (cases "delete_rules (rule_list fd) (heap st) 0")
      case (Inl e)
      then show ?thesis using assms Some False by (simp add: memory_clean_def)
    next
      case (Inr res)
      then show ?thesis using assms Some False
        by (cases res) (auto simp: memory_clean_def Let_def)
    qed
  qed
qed

lemma flow_rules_flush_frame:
  assumes "flow_rules_flush env st port = Inr (n, st')"
  shows "dev_flow_dir st' = dev_flow_dir st"
proof (cases "dev_flow_dir st port")
  case None
  then show ?thesis using assms by (simp add: flow_rules_flush_def)
next
  case (Some fd)
  show ?thesis
  proof (cases "\<not> active fd \<or> rule_list fd = [] \<or> rte_flow_flush env port \<noteq> 0")
    case True
    then show ?thesis using assms Some
      by (auto simp: flow_rules_flush_def flow_rule_complain_def Let_def split: if_splits)
  next
    case False
    let ?st1 = "emit (RteFlowFlush port) st"
    let ?st2 = "if verbose fd then emit (MsgNicFlushed port) ?st1 else ?st1"
    from False assms Some have "memory_clean ?st2 port = Inr (n, st')"
      by (simp add: flow_rules_flush_def Let_def)
    then have "dev_flow_dir st' = dev_flow_dir ?st2" by (rule memory_clean_frame)
    then show ?thesis by simp
  qed
qed

lemma flow_rules_count_cong:
  "dev_flow_dir st' = dev_flow_dir st \<Longrightarrow> flow_rules_count st' port = flow_rules_count st port"
  by (simp add: flow_rules_count_def)

lemma memory_clean_returns:
  assumes "dev_flow_dir st port = Some fd" and "live_distinct (heap st) (rule_list fd)"
  shows "\<exists>st'. memory_clean st port =
            Inr (of_nat (length (filter (\<lambda>p. p \<noteq> None) (rule_list fd))), st') \<and>
          heap st' = (\<lambda>a. if Some a \<in> set (rule_list fd) then None else heap st a)"
  using assms by (auto simp: memory_clean_def Let_def delete_rules_live fun_eq_iff)

text \<open>
  C10.  \<^verbatim>\<open>memory_clean\<close> deletes the rule objects that the port's list points to and
  leaves the stored list as it was.  Whenever \<^verbatim>\<open>memory_clean\<close> or \<^verbatim>\<open>flow_rules_flush\<close>
  returns, the port table, and with it every stored \<^verbatim>\<open>_rule_list\<close>, is unchanged, and
  \<^verbatim>\<open>flow_rules_count\<close> gives the same result as before.  On a port whose list holds
  live, distinct pointers both calls do return: \<^verbatim>\<open>memory_clean\<close> reports the number of
  non-null pointers, every address in the list is dead afterwards, and on an active
  port the count is still the length of the list.
\<close>

theorem memory_clean_keeps_rule_list:
  "(\<forall>n st'. memory_clean st port = Inr (n, st') \<longrightarrow>
      dev_flow_dir st' = dev_flow_dir st \<and>
      flow_rules_count st' port = flow_rules_count st port) \<and>
   (\<forall>n st'. flow_rules_flush env st port = Inr (n, st') \<longrightarrow>
      dev_flow_dir st' = dev_flow_dir st \<and>
      flow_rules_count st' port = flow_rules_count st port) \<and>
   (dev_flow_dir st port = Some fd \<and> live_distinct (heap st) (rule_list fd) \<longrightarrow>
      (\<exists>st'. memory_clean st port =
            Inr (of_nat (length (filter (\<lambda>p. p \<noteq> None) (rule_list fd))), st') \<and>
          (\<forall>a. Some a \<in> set (rule_list fd) \<longrightarrow> heap st' a = None) \<and>
          dev_flow_dir st' port = Some fd \<and>
          (active fd \<longrightarrow> flow_rules_count st' port = Inr (of_nat (length (rule_list fd))))) \<and>
      (\<exists>n st'. flow_rules_flush env st port = Inr (n, st')))"
proof (intro conjI allI impI)
  fix n st' assume "memory_clean st port = Inr (n, st')"
  then show "dev_flow_dir st' = dev_flow_dir st" by (rule memory_clean_frame)
  then show "flow_rules_count st' port = flow_rules_count st port"
    by (rule flow_rules_count_cong)
next
  fix n st' assume "flow_rules_flush env st port = Inr (n, st')"
  then show "dev_flow_dir st' = dev_flow_dir st" by (rule flow_rules_flush_frame)
  then show "flow_rules_count st' port = flow_rules_count st port"
    by (rule flow_rules_count_cong)
next
  assume "dev_flow_dir st port = Some fd \<and> live_distinct (heap st) (rule_list fd)"
  then have fd: "dev_flow_dir st port = Some fd" and live: "live_distinct (heap st) (rule_list fd)"
    by simp_all
  obtain st' where mc: "memory_clean st port =
            Inr (of_nat (length (filter (\<lambda>p. p \<noteq> None) (rule_list fd))), st')"
    and h: "heap st' = (\<lambda>a. if Some a \<in> set (rule_list fd) then None else heap st a)"
    using memory_clean_returns [OF fd live] by blast
  have d: "dev_flow_dir st' = dev_flow_dir st" using mc by (rule memory_clean_frame)
  have c: "flow_rules_count st' port = flow_rules_count st port"
    using d by (rule flow_rules_count_cong)
  have l: "active fd \<longrightarrow> flow_rules_count st port = Inr (of_nat (length (rule_list fd)))"
    using fd by (simp add: flow_rules_count_def)
  show "\<exists>st'. memory_clean st port =
            Inr (of_nat (length (filter (\<lambda>p. p \<noteq> None) (rule_list fd))), st') \<and>
          (\<forall>a. Some a \<in> set (rule_list fd) \<longrightarrow> heap st' a = None) \<and>
          dev_flow_dir st' port = Some fd \<and>
          (active fd \<longrightarrow> flow_rules_count st' port = Inr (of_nat (length (rule_list fd))))"
    using mc h d c l fd by simp
  let ?st1 = "emit (RteFlowFlush port) st"
  let ?st2 = "if verbose fd then emit (MsgNicFlushed port) ?st1 else ?st1"
  have a2: "dev_flow_dir ?st2 port = Some fd" "live_distinct (heap ?st2) (rule_list fd)"
    using fd live by auto
  obtain n st2' where "memory_clean ?st2 port = Inr (n, st2')"
    using memory_clean_returns [OF a2] by blast
  then show "\<exists>n st'. flow_rules_flush env st port = Inr (n, st')"
    using fd by (auto simp: flow_rules_flush_def flow_rule_complain_def Let_def)
qed

text \<open>
  In the example both rule objects are deleted, the call reports 2, and the count of
  port 0 is 2 before and after.
\<close>

theorem memory_clean_keeps_rule_list_witness:
  "dev_flow_dir st_example 0 = Some fd_example \<and>
   live_distinct (heap st_example) (rule_list fd_example) \<and>
   flow_rules_count st_example 0 = Inr 2 \<and>
   (\<exists>st'. memory_clean st_example 0 = Inr (2, st') \<and>
      heap st' 1 = None \<and> heap st' 2 = None \<and>
      dev_flow_dir st' 0 = Some fd_example \<and> flow_rules_count st' 0 = Inr 2)"
proof -
  have d: "dev_flow_dir st_example 0 = Some fd_example"
    by (simp add: st_example_def)
  have l: "live_distinct (heap st_example) (rule_list fd_example)"
    by (simp add: st_example_def fd_example_def)
  have c: "flow_rules_count st_example 0 = Inr 2"
    by (simp add: st_example_def fd_example_def flow_rules_count_def)
  from memory_clean_keeps_rule_list [of st_example 0 env_example fd_example] d l
  obtain st' where
    m: "memory_clean st_example 0 =
       Inr (of_nat (length (filter (\<lambda>p. p \<noteq> None) (rule_list fd_example))), st')"
    and "\<forall>a. Some a \<in> set (rule_list fd_example) \<longrightarrow> heap st' a = None"
    and "dev_flow_dir st' 0 = Some fd_example"
    by blast
  moreover from memory_clean_keeps_rule_list [of st_example 0 env_example fd_example] m
  have "flow_rules_count st' 0 = flow_rules_count st_example 0"
    by blast
  ultimately have "memory_clean st_example 0 =
       Inr (of_nat (length (filter (\<lambda>p. p \<noteq> None) (rule_list fd_example))), st')"
    and "\<forall>a. Some a \<in> set (rule_list fd_example) \<longrightarrow> heap st' a = None"
    and "dev_flow_dir st' 0 = Some fd_example"
    and "flow_rules_count st' 0 = flow_rules_count st_example 0"
    by simp_all
  then have "\<exists>st'. memory_clean st_example 0 = Inr (2, st') \<and>
      heap st' 1 = None \<and> heap st' 2 = None \<and>
      dev_flow_dir st' 0 = Some fd_example \<and> flow_rules_count st' 0 = Inr 2"
    using c by (simp add: fd_example_def)
  with d l c show ?thesis by simp
qed

section \<open>IP header helpers: theorems\<close>

lemma native16_split:
  "native16 be (ucast (drop_bit 8 w)) (ucast w) = (if be then w else bswap16 w)"
  unfolding native16_def bswap16_def
  apply (cases be; simp)
  apply (rule bit_word_eqI, auto simp add: bit_simps dest: bit_imp_le_length)
  apply (rule bit_word_eqI, auto simp add: bit_simps dest: bit_imp_le_length)
  done

lemma native16_split_le:
  "native16 be (ucast w) (ucast (drop_bit 8 w)) = (if be then bswap16 w else w)"
  unfolding native16_def bswap16_def
  apply (cases be; simp)
  apply (rule bit_word_eqI, auto simp add: bit_simps dest: bit_imp_le_length)
  apply (rule bit_word_eqI, auto simp add: bit_simps dest: bit_imp_le_length)
  done

lemma bswap16_bswap16 [simp]: "bswap16 (bswap16 w) = w"
  unfolding bswap16_def
  by (rule bit_word_eqI) (auto simp add: bit_simps)

lemma load_store_u16:
  "i + 1 < length m \<Longrightarrow> load_u16 be (store_u16 be m i w) i = w"
  by (cases be) (simp_all add: load_u16_def store_u16_def native16_split native16_split_le)

lemma length_store_u16 [simp]: "length (store_u16 be m i w) = length m"
  by (simp add: store_u16_def)

lemma nth_store_u16_other:
  "j \<noteq> i \<Longrightarrow> j \<noteq> i + 1 \<Longrightarrow> store_u16 be m i w ! j = m ! j"
  by (simp add: store_u16_def)

lemma ntohs_htons [simp]: "ntohs be (htons be w) = w"
  by (simp add: ntohs_def htons_def)

lemma ntohs_load_u16:
  "ntohs be (load_u16 be m i) = push_bit 8 (ucast (m ! i)) OR ucast (m ! (i + 1))"
  unfolding ntohs_def load_u16_def native16_def bswap16_def
  apply (cases be; simp)
  apply (rule bit_word_eqI)
  apply (auto simp add: bit_simps dest: bit_imp_le_length)
  done

text \<open>
  C7.  Total-length round trip.  On a packet with a valid IP header,
  \<^verbatim>\<open>packetTotalLength\<close> after \<^verbatim>\<open>setPacketTotalLength(p, n)\<close> returns \<open>n\<close> truncated to
  16 bits, which is \<open>n\<close> itself for \<open>n < 2 ^ 16\<close>, on either byte order; the setter
  changes no byte of the packet other than the two bytes of \<^verbatim>\<open>ip_len\<close>.
\<close>

theorem setPacketTotalLength_roundtrip:
  assumes "valid_ip_header p"
  shows "packetTotalLength be (setPacketTotalLength be p n) = ucast n \<and>
         (unat n < 2 ^ 16 \<longrightarrow> unat (packetTotalLength be (setPacketTotalLength be p n)) = unat n) \<and>
         network_header (setPacketTotalLength be p n) = network_header p \<and>
         length (data (setPacketTotalLength be p n)) = length (data p) \<and>
         (\<forall>i. i \<noteq> network_header p + 2 \<and> i \<noteq> network_header p + 3 \<longrightarrow>
            data (setPacketTotalLength be p n) ! i = data p ! i)"
proof -
  have len: "network_header p + 2 + 1 < length (data p)"
    using assms by (simp add: valid_ip_header_def)
  have rt: "packetTotalLength be (setPacketTotalLength be p n) = ucast n"
    using load_store_u16 [OF len]
    by (simp add: packetTotalLength_def setPacketTotalLength_def ip_len_def)
  have small: "unat n < 2 ^ 16 \<longrightarrow> unat (ucast n :: u16) = unat n"
    by (simp add: unsigned_ucast_eq take_bit_nat_eq_self)
  have frame: "\<forall>i. i \<noteq> network_header p + 2 \<and> i \<noteq> network_header p + 3 \<longrightarrow>
            data (setPacketTotalLength be p n) ! i = data p ! i"
    by (simp add: setPacketTotalLength_def nth_store_u16_other)
  show ?thesis using rt small frame by (simp add: setPacketTotalLength_def)
qed

theorem setPacketTotalLength_roundtrip_witness:
  "valid_ip_header pkt_example \<and>
   packetTotalLength False pkt_example = 115 \<and>
   packetTotalLength False (setPacketTotalLength False pkt_example 1500) = 1500 \<and>
   data (setPacketTotalLength False pkt_example 1500) ! 9 = data pkt_example ! 9"
proof -
  have v: "valid_ip_header pkt_example"
    by (simp add: valid_ip_header_def pkt_example_def ip_hl_def)
  have o: "packetTotalLength False pkt_example = 115"
    by (simp add: packetTotalLength_def ip_len_def ntohs_load_u16 pkt_example_def)
  have nh: "network_header pkt_example = 0"
    by (simp add: pkt_example_def)
  from setPacketTotalLength_roundtrip [OF v, of False 1500]
  have r: "packetTotalLength False (setPacketTotalLength False pkt_example 1500) = ucast (1500 :: u32)"
    and f: "\<forall>i. i \<noteq> network_header pkt_example + 2 \<and> i \<noteq> network_header pkt_example + 3 \<longrightarrow>
              data (setPacketTotalLength False pkt_example 1500) ! i = data pkt_example ! i"
    by blast+
  have "data (setPacketTotalLength False pkt_example 1500) ! 9 = data pkt_example ! 9"
    using f nh by simp
  with v o r show ?thesis by simp
qed

lemma unat_NOT16: "unat (NOT (y::16 word)) = 65535 - unat y"
proof -
  have "NOT y = - 1 - y" by (simp add: not_eq_complement)
  moreover have "unat (- 1 - y) = unat (- 1 :: 16 word) - unat y"
    by (rule unat_sub) simp
  moreover have "unat (- 1 :: 16 word) = 65535"
    by (simp add: unsigned_minus_1_eq_mask mask_eq_exp_minus_1)
  ultimately show ?thesis by simp
qed

lemma and_ffff: "(s::32 word) AND 0xffff = take_bit 16 s"
  by (simp add: take_bit_eq_mask mask_eq_exp_minus_1)

lemma unat_and_ffff: "unat ((s::32 word) AND 0xffff) = unat s mod 65536"
proof -
  have "unat (take_bit 16 s) = take_bit 16 (unat s)" by (rule unsigned_take_bit_eq)
  also have "\<dots> = unat s mod 2 ^ 16" by (rule take_bit_eq_mod)
  finally show ?thesis by (simp only: and_ffff) simp
qed

lemma unat_drop16: "unat (drop_bit 16 (s::32 word)) = unat s div 65536"
proof -
  have "unat (drop_bit 16 s) = drop_bit 16 (unat s)" by (rule unat_drop_bit_eq)
  also have "\<dots> = unat s div 2 ^ 16" by (rule drop_bit_eq_div)
  finally show ?thesis by simp
qed


lemma fold16_char:
  assumes "n < 4294967296"
  shows "fold16 n = (if n = 0 then 0 else (n - 1) mod 65535 + 1)"
proof -
  define a where "a = n div 65536"
  define b where "b = n mod 65536"
  have n: "n = 65536 * a + b" and b: "b < 65536" by (simp_all add: a_def b_def)
  have a: "a < 65536" using assms n by linarith
  have f: "fold16 n = (a + b + (a + b) div 65536) mod 65536"
    by (simp add: fold16_def Let_def a_def b_def add.commute)
  show ?thesis
  proof (cases "a + b < 65536")
    case True
    then have l: "fold16 n = a + b" using f by simp
    show ?thesis
    proof (cases "n = 0")
      case True
      then show ?thesis using l n by simp
    next
      case False
      then have pos: "1 \<le> a + b" using n by linarith
      have "n - 1 = (a + b - 1) + a * 65535" using n pos by linarith
      then have "(n - 1) mod 65535 = (a + b - 1) mod 65535" by (simp only: mod_mult_self1)
      also have "\<dots> = a + b - 1" using True pos by simp
      finally show ?thesis using l False pos by simp
    qed
  next
    case False
    then obtain c where c: "a + b = 65536 + c"
      using le_Suc_ex [of 65536 "a + b"] by auto
    have c_lt: "c < 65535" using a b c by linarith
    have "(a + b) div 65536 = 1" using c c_lt by simp
    then have "fold16 n = (65536 + (c + 1)) mod 65536" using f c by simp
    also have "\<dots> = (c + 1) mod 65536" by (simp only: mod_add_self1)
    also have "\<dots> = c + 1" using c_lt by simp
    finally have l: "fold16 n = c + 1" .
    have npos: "n \<noteq> 0" using n c by linarith
    have "n - 1 = (65535 + c) + a * 65535" using n c by linarith
    then have "(n - 1) mod 65535 = (65535 + c) mod 65535" by (simp only: mod_mult_self1)
    also have "\<dots> = c mod 65535" by (simp only: mod_add_self1)
    also have "\<dots> = c" using c_lt by simp
    finally show ?thesis using l npos by simp
  qed
qed

lemma fold16_complement:
  assumes "n < 4294901760"
  shows "fold16 (n + (65535 - fold16 n)) = 65535"
proof -
  have n32: "n < 4294967296" using assms by simp
  have fle: "fold16 n \<le> 65535" using fold16_char [OF n32] by (simp split: if_splits) 
  let ?m = "n + (65535 - fold16 n)"
  have m32: "?m < 4294967296" using assms by simp
  show ?thesis
  proof (cases "n = 0")
    case True
    then show ?thesis by (simp add: fold16_def)
  next
    case False
    then have fn: "fold16 n = (n - 1) mod 65535 + 1" using fold16_char [OF n32] by simp
    have "?m = 65535 + (n - 1 - (n - 1) mod 65535)"
      using fn False by (simp add: mod_less_eq_dividend) 
    also have "\<dots> = 65535 + 65535 * ((n - 1) div 65535)"
      by (simp add: minus_mod_eq_mult_div)
    finally have m: "?m = 65535 * ((n - 1) div 65535 + 1)" by simp
    then have "?m - 1 = 65534 + ((n - 1) div 65535) * 65535" by simp
    then have "(?m - 1) mod 65535 = 65534 mod 65535" by (simp only: mod_mult_self1)
    moreover have "?m \<noteq> 0" using m by simp
    ultimately show ?thesis using fold16_char [OF m32] by simp
  qed
qed


lemma ucast_NOT_32_16: "(ucast (NOT (x :: u32)) :: u16) = NOT (ucast x)"
  by (rule bit_word_eqI) (auto simp: bit_simps)

lemma unat_in_cksum_fold: "unat (in_cksum_fold s) = 65535 - fold16 (unat s)"
proof -
  let ?s1 = "(s AND 0xffff) + drop_bit 16 s"
  let ?s2 = "?s1 + drop_bit 16 ?s1"
  have b1: "unat s mod 65536 + unat s div 65536 < 2 ^ 32"
  proof -
    have "unat s < 2 ^ 32" using unsigned_less [of s] by simp
    then have "unat s div 65536 < 65536" by simp
    moreover have "unat s mod 65536 < 65536" by simp
    ultimately show ?thesis by simp
  qed
  have u1: "unat ?s1 = unat s mod 65536 + unat s div 65536"
    using b1 by (simp add: unat_add_lem [THEN iffD1] unat_and_ffff unat_drop16)
  have b2: "unat ?s1 < 131072"
  proof -
    have "unat s < 2 ^ 32" using unsigned_less [of s] by simp
    then have "unat s div 65536 < 65536" by simp
    moreover have "unat s mod 65536 < 65536" by simp
    ultimately show ?thesis using u1 by linarith
  qed
  have u2: "unat ?s2 = unat ?s1 + unat ?s1 div 65536"
  proof -
    have "unat ?s1 div 65536 < 2" using b2 by simp
    then have "unat ?s1 + unat (drop_bit 16 ?s1) < 2 ^ LENGTH(32)"
      using b2 by (simp only: unat_drop16) simp
    then have "unat (?s1 + drop_bit 16 ?s1) = unat ?s1 + unat (drop_bit 16 ?s1)"
      by (rule unat_add_lem [THEN iffD1])
    then show ?thesis by (simp only: unat_drop16)
  qed
  have "unat (ucast ?s2 :: u16) = unat ?s2 mod 65536"
    by (simp add: unsigned_ucast_eq take_bit_eq_mod)
  then have "unat (ucast ?s2 :: u16) = fold16 (unat s)"
    by (simp only: u2 u1 fold16_def Let_def)
  then show ?thesis
    by (simp only: in_cksum_fold_def Let_def ucast_NOT_32_16 unat_NOT16)
qed

lemma in_cksum_loop_acc:
  "in_cksum_loop be bs acc = acc + in_cksum_loop be bs 0"
proof (induction bs arbitrary: acc rule: induct_list012)
  case (3 x y zs)
  have "in_cksum_loop be (x # y # zs) acc = (acc + ucast (native16 be x y)) + in_cksum_loop be zs 0"
    using "3.IH"(1) [of "acc + ucast (native16 be x y)"] by simp
  moreover have "in_cksum_loop be (x # y # zs) 0 = ucast (native16 be x y) + in_cksum_loop be zs 0"
    using "3.IH"(1) [of "ucast (native16 be x y)"] by simp
  ultimately show ?case by (simp add: add.assoc)
qed simp_all

lemma in_cksum_loop_Cons2:
  "in_cksum_loop be (b0 # b1 # rest) 0 = ucast (native16 be b0 b1) + in_cksum_loop be rest 0"
  using in_cksum_loop_acc [of be rest "ucast (native16 be b0 b1)"] by simp

lemma unat_ucast_16_32: "unat (ucast (w :: u16) :: u32) = unat w"
  by (simp add: unsigned_ucast_eq take_bit_nat_eq_self unsigned_less [of w, simplified] less_trans [OF unsigned_less [of w, simplified]])

lemma in_cksum_loop_bound:
  "length bs \<le> 2 * k \<Longrightarrow> unat (in_cksum_loop be bs 0) \<le> 65535 * k"
proof (induction bs arbitrary: k rule: induct_list012)
  case 1
  then show ?case by simp
next
  case (2 x)
  then obtain k' where k: "k = Suc k'" by (cases k) auto
  have "unat (native16 be x 0) < 2 ^ 16" using unsigned_less [of "native16 be x 0"] by simp
  then show ?case using k by (simp add: unat_ucast_16_32)
next
  case (3 x y zs)
  then obtain k' where k: "k = Suc k'" by (cases k) auto
  then have "length zs \<le> 2 * k'" using "3.prems" by simp
  then have ih: "unat (in_cksum_loop be zs 0) \<le> 65535 * k'" by (rule "3.IH"(1))
  have "unat (native16 be x y) < 2 ^ 16" using unsigned_less [of "native16 be x y"] by simp
  then have w: "unat (ucast (native16 be x y) :: u32) \<le> 65535"
    by (simp add: unat_ucast_16_32)
  have "unat (in_cksum_loop be (x # y # zs) 0)
          \<le> unat (ucast (native16 be x y) :: u32) + unat (in_cksum_loop be zs 0)"
    by (simp only: in_cksum_loop_Cons2 unat_word_ariths) simp
  then show ?case using ih w k by simp
qed

lemma in_cksum_loop_update:
  "2 * j + 1 < length bs \<Longrightarrow>
   in_cksum_loop be (bs[2 * j := x, 2 * j + 1 := y]) 0 + ucast (native16 be (bs ! (2 * j)) (bs ! (2 * j + 1)))
     = in_cksum_loop be bs 0 + ucast (native16 be x y)"
proof (induction j arbitrary: bs)
  case 0
  then obtain b0 b1 rest where bs: "bs = b0 # b1 # rest"
    by (cases bs; cases "tl bs") auto
  show ?case by (simp add: bs in_cksum_loop_Cons2 del: in_cksum_loop.simps)
next
  case (Suc j)
  then obtain b0 b1 rest where bs: "bs = b0 # b1 # rest"
    by (cases bs; cases "tl bs") auto
  have len: "2 * j + 1 < length rest" using Suc.prems bs by simp
  show ?case using Suc.IH [OF len]
    by (simp add: bs in_cksum_loop_Cons2 add.assoc del: in_cksum_loop.simps)
qed


lemma in_cksum_loop_store_u16:
  assumes "2 * j + 1 < length bs"
  shows "in_cksum_loop be (store_u16 be bs (2 * j) w) 0 + ucast (load_u16 be bs (2 * j))
           = in_cksum_loop be bs 0 + ucast w"
proof (cases be)
  case True
  then show ?thesis
    using in_cksum_loop_update [OF assms, of be "ucast (drop_bit 8 w)" "ucast w"]
    by (simp add: store_u16_def load_u16_def native16_split)
next
  case False
  then show ?thesis
    using in_cksum_loop_update [OF assms, of be "ucast w" "ucast (drop_bit 8 w)"]
    by (simp add: store_u16_def load_u16_def native16_split_le)
qed

lemma take_drop_store_u16:
  "take n (drop k (store_u16 be m (k + i) w)) = store_u16 be (take n (drop k m)) i w"
  by (simp add: store_u16_def drop_update_swap take_update_swap add.assoc)

lemma unat_ip_hl_le: "unat (ip_hl p) \<le> 15"
proof -
  have "ip_hl p \<le> 15" unfolding ip_hl_def by (rule word_and_le1)
  then show ?thesis by (simp add: word_le_nat_alt)
qed

lemma click_in_cksum_verifies:
  assumes len: "11 < length H" "length H \<le> 60"
  shows "click_in_cksum be
           (store_u16 be (store_u16 be H 10 0) 10 (click_in_cksum be (store_u16 be H 10 0))) = 0"
proof -
  let ?H0 = "store_u16 be H 10 0"
  let ?s0 = "in_cksum_loop be ?H0 0"
  let ?c = "in_cksum_fold ?s0"
  have l0: "2 * 5 + 1 < length ?H0" using len by simp
  have z: "load_u16 be ?H0 10 = 0" using len by (simp add: load_store_u16)
  have "in_cksum_loop be (store_u16 be ?H0 (2 * 5) ?c) 0 + ucast (load_u16 be ?H0 (2 * 5))
          = ?s0 + ucast ?c"
    by (rule in_cksum_loop_store_u16 [OF l0])
  then have s1: "in_cksum_loop be (store_u16 be ?H0 10 ?c) 0 = ?s0 + ucast ?c"
    using z by simp
  have "length ?H0 \<le> 2 * 30" using len by simp
  then have b0: "unat ?s0 \<le> 65535 * 30" by (rule in_cksum_loop_bound)
  have uc: "unat (ucast ?c :: u32) = 65535 - fold16 (unat ?s0)"
    by (simp only: unat_ucast_16_32 unat_in_cksum_fold)
  have "unat ?s0 + unat (ucast ?c :: u32) < 2 ^ LENGTH(32)"
    using b0 uc by simp
  then have "unat (?s0 + ucast ?c) = unat ?s0 + unat (ucast ?c :: u32)"
    by (rule unat_add_lem [THEN iffD1])
  then have u1: "unat (?s0 + ucast ?c) = unat ?s0 + (65535 - fold16 (unat ?s0))"
    by (simp only: uc)
  have "unat ?s0 < 4294901760" using b0 by simp
  then have "fold16 (unat ?s0 + (65535 - fold16 (unat ?s0))) = 65535"
    by (rule fold16_complement)
  then have "unat (in_cksum_fold (?s0 + ucast ?c)) = 0"
    by (simp only: unat_in_cksum_fold u1)
  then have "in_cksum_fold (?s0 + ucast ?c) = 0"
    by (simp add: unsigned_eq_0_iff)
  then show ?thesis by (simp only: click_in_cksum_def s1)
qed

text \<open>
  C6.  \<^verbatim>\<open>computeChecksum\<close> recomputes the IP header checksum only.  On a packet with
  a valid IP header it changes no byte other than the two bytes of \<^verbatim>\<open>ip_sum\<close>, so
  every byte outside the header is unchanged; the stored value is the
  one's-complement checksum of the \<open>hlen = ip_hl * 4\<close> header bytes taken with
  \<^verbatim>\<open>ip_sum\<close> zeroed; and the header then verifies: its checksum over \<open>hlen\<close> bytes is
  zero.
\<close>

theorem computeChecksum_header_only:
  assumes "valid_ip_header p"
  shows "network_header (computeChecksum be p) = network_header p \<and>
         length (data (computeChecksum be p)) = length (data p) \<and>
         (\<forall>i. i \<noteq> network_header p + 10 \<and> i \<noteq> network_header p + 11 \<longrightarrow>
            data (computeChecksum be p) ! i = data p ! i) \<and>
         (\<forall>i. i < network_header p \<or> network_header p + unat (ip_hl p) * 4 \<le> i \<longrightarrow>
            data (computeChecksum be p) ! i = data p ! i) \<and>
         ip_hl (computeChecksum be p) = ip_hl p \<and>
         ip_sum be (computeChecksum be p) =
           click_in_cksum be
             (ip_header_bytes (p\<lparr>data := store_u16 be (data p) (network_header p + 10) 0\<rparr>)
                (unat (ip_hl p) * 4)) \<and>
         click_in_cksum be (ip_header_bytes (computeChecksum be p) (unat (ip_hl p) * 4)) = 0"
proof -
  let ?nh = "network_header p"
  let ?hlen = "unat (ip_hl p) * 4"
  let ?H = "take ?hlen (drop ?nh (data p))"
  let ?d1 = "store_u16 be (data p) (?nh + 10) 0"
  let ?c = "click_in_cksum be (take ?hlen (drop ?nh ?d1))"
  have hl: "20 \<le> ?hlen" and inb: "?nh + ?hlen \<le> length (data p)"
    using assms by (simp_all add: valid_ip_header_def)
  have hmax: "?hlen \<le> 60" using unat_ip_hl_le [of p] by simp
  have cc: "data (computeChecksum be p) = store_u16 be ?d1 (?nh + 10) ?c"
    and nh: "network_header (computeChecksum be p) = ?nh"
    by (simp_all add: computeChecksum_def Let_def ip_header_bytes_def)
  have frame: "\<forall>i. i \<noteq> ?nh + 10 \<and> i \<noteq> ?nh + 11 \<longrightarrow> data (computeChecksum be p) ! i = data p ! i"
    by (simp add: cc nth_store_u16_other)
  have outside: "\<forall>i. i < ?nh \<or> ?nh + ?hlen \<le> i \<longrightarrow> data (computeChecksum be p) ! i = data p ! i"
    using frame hl by auto
  have hl_same: "ip_hl (computeChecksum be p) = ip_hl p"
    using frame by (simp add: ip_hl_def nh)
  have lenH: "length ?H = ?hlen" using inb by simp
  have sum: "ip_sum be (computeChecksum be p) = ?c"
    using inb hl by (simp add: ip_sum_def nh cc load_store_u16)
  have H0: "take ?hlen (drop ?nh ?d1) = store_u16 be ?H 10 0"
    by (rule take_drop_store_u16)
  have H1: "take ?hlen (drop ?nh (store_u16 be ?d1 (?nh + 10) w))
              = store_u16 be (store_u16 be ?H 10 0) 10 w" for w
    by (simp only: take_drop_store_u16)
  have "click_in_cksum be (store_u16 be (store_u16 be ?H 10 0) 10
          (click_in_cksum be (store_u16 be ?H 10 0))) = 0"
    by (rule click_in_cksum_verifies) (use lenH hl hmax in simp_all)
  then have valid: "click_in_cksum be (ip_header_bytes (computeChecksum be p) ?hlen) = 0"
    by (simp only: ip_header_bytes_def nh cc H1 H0)
  show ?thesis
    using nh frame outside hl_same sum valid
    by (simp add: cc ip_header_bytes_def)
qed

theorem computeChecksum_header_only_witness:
  "valid_ip_header pkt_example \<and>
   ip_sum True (computeChecksum True pkt_example) = 0xb861 \<and>
   click_in_cksum True (ip_header_bytes (computeChecksum True pkt_example) 20) = 0 \<and>
   data (computeChecksum True pkt_example) ! 20 = 0xde"
proof -
  have v: "valid_ip_header pkt_example"
    by (simp add: valid_ip_header_def pkt_example_def ip_hl_def)
  have h: "unat (ip_hl pkt_example) * 4 = 20"
    by (simp add: pkt_example_def ip_hl_def)
  have s: "ip_sum True (computeChecksum True pkt_example) = 0xb861"
    by (simp add: ip_sum_def computeChecksum_def Let_def ip_header_bytes_def click_in_cksum_def
          in_cksum_fold_def store_u16_def load_u16_def native16_def pkt_example_def ip_hl_def)
  have nh: "network_header pkt_example = 0"
    by (simp add: pkt_example_def)
  from computeChecksum_header_only [OF v, of True]
  have c: "click_in_cksum True
             (ip_header_bytes (computeChecksum True pkt_example) (unat (ip_hl pkt_example) * 4)) = 0"
    and f: "\<forall>i. i \<noteq> network_header pkt_example + 10 \<and> i \<noteq> network_header pkt_example + 11 \<longrightarrow>
              data (computeChecksum True pkt_example) ! i = data pkt_example ! i"
    by blast+
  have "data (computeChecksum True pkt_example) ! 20 = data pkt_example ! 20"
    using f nh by simp
  moreover have "data pkt_example ! 20 = 0xde" by (simp add: pkt_example_def)
  ultimately show ?thesis using v s c h by simp
qed

section \<open>HTTP handler interface: theorems\<close>

lemma resolve_element_None:
  "resolve_element r e0 en0 fp path = (None, ename, path') \<Longrightarrow> e0 = None \<and> ename = en0"
proof (induction r e0 en0 fp path rule: resolve_element.induct)
  case (1 r e ename0 fullpath path)
  show ?case
  proof (cases "find r (fullpath @ (if find_left path CHR ''/'' = - 1 then path
                   else substring path 0 (find_left path CHR ''/'')))")
    case None
    then show ?thesis using "1.prems" by (simp add: resolve_element.simps [of r e] Let_def)
  next
    case (Some et)
    show ?thesis
    proof (cases "find_left path CHR ''/'' = - 1")
      case True
      then show ?thesis using "1.prems" Some by (simp add: resolve_element.simps [of r e] Let_def)
    next
      case False
      then show ?thesis using "1.prems" Some "1.IH" [OF refl refl _ False]
        by (simp add: resolve_element.simps [of r e] Let_def)
    qed
  qed
qed

lemma request_target_Inr: "\<exists>e ename hname param. request_target r u = Inr (e, ename, hname, param)"
  by (auto simp: request_target_def Let_def split: prod.splits option.splits
           dest: resolve_element_None)

lemma find_left_none: "c \<notin> set s \<Longrightarrow> find_left s c = - 1"
  by (simp add: find_left_def)

lemma takeWhile_stop: "c \<notin> set s \<Longrightarrow> takeWhile (\<lambda>x. x \<noteq> c) (s @ c # t) = s"
  by (induction s) auto

lemma find_left_first: "c \<notin> set s \<Longrightarrow> find_left (s @ c # t) c = int (length s)"
  by (simp add: find_left_def takeWhile_stop)

lemma nat_int_succ_diff [simp]: "nat (int n + 1) - n = Suc 0"
  by (simp add: nat_add_distrib)

text \<open>
  Whatever target the path walk resolves, a DELETE request is dispatched on the handler
  \<^verbatim>\<open>delete_\<close>\<open>h\<close> of the resolved element with the resolved parameter.
\<close>

lemma delete_dispatch:
  assumes "con_cls req = Some acc" and "http_method req = ''DELETE''"
    and t: "request_target r (url req) = Inr (e, ename, hname, param)"
  shows "(\<forall>h. handler r e (''delete_'' @ hname) = Some h \<and> visible h \<longrightarrow>
                ahc_echo r req =
                  Respond 200 (if call_write h param e = 0 then ''success'' else ''error'')
                    [CallWrite e (''delete_'' @ hname) param]) \<and>
         (handler r e (''delete_'' @ hname) = None \<longrightarrow>
                status_of (ahc_echo r req) = Some 404 \<and> calls_of (ahc_echo r req) = []) \<and>
         (\<forall>h. handler r e (''delete_'' @ hname) = Some h \<and> \<not> visible h \<longrightarrow>
                status_of (ahc_echo r req) = Some 404 \<and> calls_of (ahc_echo r req) = [])"
proof -
  have nm: "http_method req \<noteq> ''GET''" "http_method req \<noteq> ''POST''"
    using assms(2) by simp_all
  have ok: "\<forall>h. handler r e (''delete_'' @ hname) = Some h \<and> visible h \<longrightarrow>
                ahc_echo r req =
                  Respond 200 (if call_write h param e = 0 then ''success'' else ''error'')
                    [CallWrite e (''delete_'' @ hname) param]"
    using assms nm by (auto simp: ahc_echo_def Let_def)
  have none: "handler r e (''delete_'' @ hname) = None \<longrightarrow>
                status_of (ahc_echo r req) = Some 404 \<and> calls_of (ahc_echo r req) = []"
    using assms nm by (auto simp: ahc_echo_def Let_def bad_handler_def status_of_def calls_of_def)
  have invis: "\<forall>h. handler r e (''delete_'' @ hname) = Some h \<and> \<not> visible h \<longrightarrow>
                status_of (ahc_echo r req) = Some 404 \<and> calls_of (ahc_echo r req) = []"
    using assms nm by (auto simp: ahc_echo_def Let_def bad_handler_def status_of_def calls_of_def)
  show ?thesis by (intro conjI ok none invis)
qed

text \<open>
  The path walk on a path that starts with the name of an element, without a slash in
  it, followed by a component that does not name a child element: the walk stops at
  that element and leaves the rest of the path.
\<close>

lemma resolve_element_simple_name:
  assumes en: "CHR ''/'' \<notin> set en" and hn: "CHR ''/'' \<notin> set hn"
    and f: "find r en = Some e" and nf: "find r (en @ ''/'' @ hn) = None"
    and rest: "rest = [] \<or> hd rest = CHR ''/''"
  shows "resolve_element r None [] [] (en @ ''/'' @ hn @ rest) = (Some e, en, hn @ rest)"
proof -
  have p1: "find_left (en @ ''/'' @ hn @ rest) CHR ''/'' = int (length en)"
    using find_left_first [OF en, of "hn @ rest"] by simp
  have step1: "resolve_element r None [] [] (en @ ''/'' @ hn @ rest)
                 = resolve_element r (Some e) en (en @ ''/'') (hn @ rest)"
    using p1 f
    by (subst resolve_element.simps) (simp add: Let_def substring_def substring_from_def)
  have en2: "(if find_left (hn @ rest) CHR ''/'' = - 1 then hn @ rest
              else substring (hn @ rest) 0 (find_left (hn @ rest) CHR ''/'')) = hn"
  proof (cases rest)
    case Nil
    then show ?thesis using hn by (simp add: find_left_none)
  next
    case (Cons c cs)
    then have c: "c = CHR ''/''" using rest by simp
    have "find_left (hn @ CHR ''/'' # cs) CHR ''/'' = int (length hn)"
      using hn by (rule find_left_first)
    then show ?thesis using Cons c by (simp add: substring_def)
  qed
  have step2: "resolve_element r (Some e) en (en @ ''/'') (hn @ rest) = (Some e, en, hn @ rest)"
    using nf en2
    by (subst resolve_element.simps) (simp add: Let_def)
  show ?thesis using step1 step2 by simp
qed

lemma request_target_simple_name:
  assumes ne: "en \<noteq> []" and en: "CHR ''/'' \<notin> set en" and hn: "CHR ''/'' \<notin> set hn"
    and f: "find r en = Some e" and nf: "find r (en @ ''/'' @ hn) = None"
  shows "request_target r (''/'' @ en @ ''/'' @ hn @ ''/'' @ param) = Inr (e, en, hn, param)"
    and "request_target r (''/'' @ en @ ''/'' @ hn) = Inr (e, en, hn, [])"
proof -
  obtain c cs where ecs: "en = c # cs" and c: "c \<noteq> CHR ''/''"
    using ne en by (cases en) auto
  have r1: "resolve_element r None [] [] (en @ ''/'' @ hn @ (''/'' @ param))
              = (Some e, en, hn @ (''/'' @ param))"
    by (rule resolve_element_simple_name [OF en hn f nf]) simp
  have r2: "resolve_element r None [] [] (en @ ''/'' @ hn @ []) = (Some e, en, hn @ [])"
    by (rule resolve_element_simple_name [OF en hn f nf]) simp
  have fl: "find_left (hn @ CHR ''/'' # param) CHR ''/'' = int (length hn)"
    using hn by (rule find_left_first)
  show "request_target r (''/'' @ en @ ''/'' @ hn @ ''/'' @ param) = Inr (e, en, hn, param)"
    using r1 fl c
    by (simp add: request_target_def Let_def ecs substring_def substring_from_def)
  show "request_target r (''/'' @ en @ ''/'' @ hn) = Inr (e, en, hn, [])"
    using r2 hn c
    by (simp add: request_target_def Let_def ecs find_left_none)
qed

text \<open>
  C8 (as amended).  Let a DELETE request, on the call that processes it, have the URL
  \<^verbatim>\<open>/en/hn/param\<close> or \<^verbatim>\<open>/en/hn\<close> (then the parameter is empty), where \<open>en\<close> is not
  empty, neither \<open>en\<close> nor \<open>hn\<close> contains a slash, the router finds the element \<open>e\<close>
  under the name \<open>en\<close>, and \<^verbatim>\<open>en/hn\<close> is not itself the name of an element.  Then the
  server resolves the element \<open>e\<close>, the handler name \<open>hn\<close> and the rest of the path as
  parameter, and looks up the handler \<^verbatim>\<open>delete_\<close>\<open>hn\<close> on \<open>e\<close>.  If it exists and is
  visible, its write callback is called once with the parameter and the response is
  200 with body \<^verbatim>\<open>success\<close> when the call returns 0 and \<^verbatim>\<open>error\<close> otherwise; if it
  does not exist (or is not visible) the response is 404 and nothing is called.
\<close>

theorem delete_url_invokes_delete_handler:
  assumes "con_cls req = Some acc" and "http_method req = ''DELETE''"
    and "en \<noteq> []" and "CHR ''/'' \<notin> set en" and "CHR ''/'' \<notin> set hn"
    and "find r en = Some e" and "find r (en @ ''/'' @ hn) = None"
    and "url req = ''/'' @ en @ ''/'' @ hn @ ''/'' @ param \<or>
         (url req = ''/'' @ en @ ''/'' @ hn \<and> param = [])"
  shows "request_target r (url req) = Inr (e, en, hn, param) \<and>
         (\<forall>h. handler r e (''delete_'' @ hn) = Some h \<and> visible h \<longrightarrow>
                ahc_echo r req =
                  Respond 200 (if call_write h param e = 0 then ''success'' else ''error'')
                    [CallWrite e (''delete_'' @ hn) param]) \<and>
         (handler r e (''delete_'' @ hn) = None \<longrightarrow>
                status_of (ahc_echo r req) = Some 404 \<and> calls_of (ahc_echo r req) = []) \<and>
         (\<forall>h. handler r e (''delete_'' @ hn) = Some h \<and> \<not> visible h \<longrightarrow>
                status_of (ahc_echo r req) = Some 404 \<and> calls_of (ahc_echo r req) = [])"
proof -
  have t: "request_target r (url req) = Inr (e, en, hn, param)"
    using assms(8) request_target_simple_name [OF assms(3-7)] by auto
  show ?thesis using t delete_dispatch [OF assms(1,2) t] by simp
qed

theorem delete_url_invokes_delete_handler_witness:
  "con_cls req_example = Some [] \<and> http_method req_example = ''DELETE'' \<and>
   url req_example = ''/fd/rules/3'' \<and>
   find router_example ''fd'' = Some 1 \<and> find router_example ''fd/rules'' = None \<and>
   handler router_example 1 ''delete_rules'' = Some handler_example \<and>
   request_target router_example (url req_example) = Inr (1, ''fd'', ''rules'', ''3'') \<and>
   ahc_echo router_example req_example = Respond 200 ''success'' [CallWrite 1 ''delete_rules'' ''3'']"
proof -
  have h1: "con_cls req_example = Some []" and h2: "http_method req_example = ''DELETE''"
    by (simp_all add: req_example_def)
  have h3: "''fd'' \<noteq> []" and h4: "CHR ''/'' \<notin> set ''fd''" and h5: "CHR ''/'' \<notin> set ''rules''"
    by simp_all
  have h6: "find router_example ''fd'' = Some 1"
    and h7: "find router_example (''fd'' @ ''/'' @ ''rules'') = None"
    by (simp_all add: router_example_def)
  have h8: "url req_example = ''/'' @ ''fd'' @ ''/'' @ ''rules'' @ ''/'' @ ''3'' \<or>
            (url req_example = ''/'' @ ''fd'' @ ''/'' @ ''rules'' \<and> ''3'' = [])"
    by (simp add: req_example_def)
  note dispatch = delete_url_invokes_delete_handler [OF h1 h2 h3 h4 h5 h6 h7 h8]
  have hd: "handler router_example 1 (''delete_'' @ ''rules'') = Some handler_example \<and>
            visible handler_example"
    by (simp add: router_example_def handler_example_def)
  from dispatch have t: "request_target router_example (url req_example) = Inr (1, ''fd'', ''rules'', ''3'')"
    by blast
  from dispatch hd have "ahc_echo router_example req_example =
      Respond 200 (if call_write handler_example ''3'' 1 = 0 then ''success'' else ''error'')
        [CallWrite 1 (''delete_'' @ ''rules'') ''3'']"
    by blast
  then have r: "ahc_echo router_example req_example =
      Respond 200 ''success'' [CallWrite 1 ''delete_rules'' ''3'']"
    by (simp add: handler_example_def)
  show ?thesis using h1 h2 h6 h7 hd t r by (simp add: req_example_def)
qed

text \<open>
  C8 as stated fails for an element with a compound name.  The router below has the
  single element \<^verbatim>\<open>a/b\<close> with a visible handler \<^verbatim>\<open>delete_h\<close>.  For the request
  \<^verbatim>\<open>DELETE /a/b/h/3\<close> the path walk looks up \<^verbatim>\<open>a\<close>, finds no element, and falls back
  to the root element with handler name \<^verbatim>\<open>a\<close> and parameter \<^verbatim>\<open>b/h/3\<close>: the answer is 404
  and \<^verbatim>\<open>delete_h\<close> is not called.
\<close>

theorem delete_nested_element_counterexample:
  "find router_nested ''a/b'' = Some 1 \<and>
   handler router_nested 1 ''delete_h'' = Some handler_example \<and> visible handler_example \<and>
   http_method req_nested = ''DELETE'' \<and> url req_nested = ''/a/b/h/3'' \<and>
   request_target router_nested (url req_nested) = Inr (0, [], ''a'', ''b/h/3'') \<and>
   ahc_echo router_nested req_nested =
     Respond 404 (''Invalid path '' @ [CHR 0x27] @ ''/a/b/h/3'' @ [CHR 0x27] @ '' or no delete_a in '') []"
proof -
  have t: "request_target router_nested (url req_nested) = Inr (0, [], ''a'', ''b/h/3'')"
    by (simp add: req_nested_def request_target_def router_nested_def find_left_def
          substring_def substring_from_def Let_def resolve_element.simps)
  have "ahc_echo router_nested req_nested =
     Respond 404 (''Invalid path '' @ [CHR 0x27] @ ''/a/b/h/3'' @ [CHR 0x27] @ '' or no delete_a in '') []"
    using t by (simp add: ahc_echo_def Let_def req_nested_def router_nested_def bad_handler_def)
  then show ?thesis using t
    by (simp add: router_nested_def handler_example_def req_nested_def)
qed

section \<open>Modification list: theorems\<close>

lemma insertNode_split:
  "\<exists>ys zs. xs = ys @ zs \<and> insertNode n xs = ys @ n # zs \<and>
     (\<forall>y \<in> set ys. position y \<le> position n) \<and>
     (zs \<noteq> [] \<longrightarrow> position n < position (hd zs))"
proof (induction xs)
  case Nil
  then show ?case by simp
next
  case (Cons m ms)
  show ?case
  proof (cases "position m \<le> position n")
    case True
    from Cons.IH obtain ys zs where "ms = ys @ zs" "insertNode n ms = ys @ n # zs"
      "\<forall>y \<in> set ys. position y \<le> position n"
      "zs \<noteq> [] \<longrightarrow> position n < position (hd zs)"
      by blast
    then have "m # ms = (m # ys) @ zs \<and> insertNode n (m # ms) = (m # ys) @ n # zs \<and>
       (\<forall>y \<in> set (m # ys). position y \<le> position n) \<and>
       (zs \<noteq> [] \<longrightarrow> position n < position (hd zs))"
      using True by simp
    then show ?thesis by blast
  next
    case False
    then have "m # ms = [] @ (m # ms) \<and> insertNode n (m # ms) = [] @ n # (m # ms) \<and>
       (\<forall>y \<in> set []. position y \<le> position n) \<and>
       (m # ms \<noteq> [] \<longrightarrow> position n < position (hd (m # ms)))"
      by simp
    then show ?thesis by blast
  qed
qed

lemma set_insertNode: "set (insertNode n xs) = insert n (set xs)"
  by (induction xs) auto

lemma sorted_insertNode:
  "sorted (map position xs) \<Longrightarrow> sorted (map position (insertNode n xs))"
  by (induction xs) (auto simp: set_insertNode)

text \<open>
  C4.  On a committed list \<^verbatim>\<open>addModification\<close> returns false and leaves the list as
  it is.  On a list that is not committed it returns true, and the new list is
  \<^verbatim>\<open>mergeNodes\<close> applied to the old list with the edit inserted in position-sorted
  order: the node goes behind the nodes whose position is not larger and in front of
  the first node with a larger position, the other nodes keep their order, and a
  position-sorted list stays position-sorted.
\<close>

theorem addModification_after_commit:
  "(committed ml \<longrightarrow> addModification ml pos off = (False, ml)) \<and>
   (\<not> committed ml \<longrightarrow>
      addModification ml pos off =
        (True, ml\<lparr>head := mergeNodes (insertNode \<lparr>position = pos, offset = off\<rparr> (head ml))\<rparr>) \<and>
      (\<exists>ys zs. head ml = ys @ zs \<and>
         insertNode \<lparr>position = pos, offset = off\<rparr> (head ml)
           = ys @ \<lparr>position = pos, offset = off\<rparr> # zs \<and>
         (\<forall>y \<in> set ys. position y \<le> pos) \<and>
         (zs \<noteq> [] \<longrightarrow> pos < position (hd zs))) \<and>
      (sorted (map position (head ml)) \<longrightarrow>
         sorted (map position (insertNode \<lparr>position = pos, offset = off\<rparr> (head ml)))))"
proof -
  let ?n = "\<lparr>position = pos, offset = off\<rparr>"
  obtain ys zs where "head ml = ys @ zs" "insertNode ?n (head ml) = ys @ ?n # zs"
    "\<forall>y \<in> set ys. position y \<le> position ?n"
    "zs \<noteq> [] \<longrightarrow> position ?n < position (hd zs)"
    using insertNode_split [of "head ml" ?n] by blast
  then have split: "\<exists>ys zs. head ml = ys @ zs \<and> insertNode ?n (head ml) = ys @ ?n # zs \<and>
         (\<forall>y \<in> set ys. position y \<le> pos) \<and>
         (zs \<noteq> [] \<longrightarrow> pos < position (hd zs))"
    by auto
  have srt: "sorted (map position (head ml)) \<longrightarrow> sorted (map position (insertNode ?n (head ml)))"
    by (simp add: sorted_insertNode)
  show ?thesis using split srt by (simp add: addModification_def)
qed

text \<open>
  In the example a committed list refuses the edit; on the uncommitted list an insertion
  at position 7 goes between the two nodes, an insertion of four bytes at position 5
  merges with the node there, and an insertion of one byte at position 9 cancels the
  removal there.
\<close>

theorem addModification_after_commit_witness:
  "addModification (ml_example\<lparr>committed := True\<rparr>) 7 3 = (False, ml_example\<lparr>committed := True\<rparr>) \<and>
   addModification ml_example 7 3 =
     (True, \<lparr>head = [\<lparr>position = 5, offset = 2\<rparr>, \<lparr>position = 7, offset = 3\<rparr>,
                     \<lparr>position = 9, offset = - 1\<rparr>], committed = False\<rparr>) \<and>
   addModification ml_example 5 4 =
     (True, \<lparr>head = [\<lparr>position = 5, offset = 6\<rparr>, \<lparr>position = 9, offset = - 1\<rparr>],
             committed = False\<rparr>) \<and>
   addModification ml_example 9 1 =
     (True, \<lparr>head = [\<lparr>position = 5, offset = 2\<rparr>], committed = False\<rparr>)"
proof -
  have c: "committed (ml_example\<lparr>committed := True\<rparr>)" and n: "\<not> committed ml_example"
    by (simp_all add: ml_example_def)
  have "addModification (ml_example\<lparr>committed := True\<rparr>) 7 3 = (False, ml_example\<lparr>committed := True\<rparr>)"
    using addModification_after_commit [of "ml_example\<lparr>committed := True\<rparr>" 7 3] c by blast
  moreover have "addModification ml_example p off =
      (True, ml_example\<lparr>head := mergeNodes (insertNode \<lparr>position = p, offset = off\<rparr> (head ml_example))\<rparr>)"
    for p off
    using addModification_after_commit [of ml_example p off] n by blast
  ultimately show ?thesis
    by (simp add: ml_example_def sameSign_def)
qed

section \<open>Byte-stream maintainer: theorems\<close>

lemma cum_diff:
  "x \<le> y \<Longrightarrow> cum S y - cum S x = sum_list (map snd (filter (\<lambda>e. x < fst e \<and> fst e \<le> y) S))"
  unfolding cum_def by (induction S) auto

lemma removed_total_bound:
  "regions_disjoint S \<Longrightarrow> a < x \<Longrightarrow>
   (\<forall>e \<in> set S. snd e < 0 \<longrightarrow> a < fst e \<and> fst e - snd e \<le> x) \<Longrightarrow>
   sum_list (map (\<lambda>e. - snd e) (filter (\<lambda>e. snd e < 0) S)) \<le> x - a - 1"
proof (induction S arbitrary: a)
  case Nil
  then show ?case by simp
next
  case (Cons e S)
  show ?case
  proof (cases "snd e < 0")
    case False
    then show ?thesis using Cons by simp
  next
    case True
    let ?a' = "fst e - snd e - 1"
    have e: "a < fst e" "fst e - snd e \<le> x" using Cons.prems(3) True by auto
    have rd: "regions_disjoint S" using Cons.prems(1) by simp
    have later: "\<forall>e' \<in> set S. snd e' < 0 \<longrightarrow> ?a' < fst e' \<and> fst e' - snd e' \<le> x"
      using Cons.prems(1,3) True by auto
    have "?a' < x" using e by simp
    from Cons.IH [OF rd this later]
    have "sum_list (map (\<lambda>e. - snd e) (filter (\<lambda>e. snd e < 0) S)) \<le> x - ?a' - 1" .
    then show ?thesis using True e by simp
  qed
qed

lemma sum_ge_removed:
  "- sum_list (map (\<lambda>e. - snd e) (filter (\<lambda>e. snd e < 0) T)) \<le> sum_list (map snd (T :: entry list))"
  by (induction T) auto

lemma regions_disjoint_filter:
  "regions_disjoint S \<Longrightarrow> regions_disjoint (filter P S)"
  by (induction S) auto

lemma mapSeq_strict_outside:
  assumes "regions_disjoint S" and "\<not> in_removed_region S y" and "x < y"
  shows "mapSeq S x < mapSeq S y"
proof -
  let ?T = "filter (\<lambda>e. x < fst e \<and> fst e \<le> y) S"
  have rd: "regions_disjoint ?T" using assms(1) by (rule regions_disjoint_filter)
  have inside: "\<forall>e \<in> set ?T. snd e < 0 \<longrightarrow> x < fst e \<and> fst e - snd e \<le> y"
    using assms(2) by (auto simp: in_removed_region_def)
  have "sum_list (map (\<lambda>e. - snd e) (filter (\<lambda>e. snd e < 0) ?T)) \<le> y - x - 1"
    using rd assms(3) inside by (rule removed_total_bound)
  then have "- (y - x - 1) \<le> sum_list (map snd ?T)"
    using sum_ge_removed [of ?T] by linarith
  moreover have "cum S y - cum S x = sum_list (map snd ?T)"
    using assms(3) by (simp add: cum_diff)
  ultimately show ?thesis by (simp add: mapSeq_def)
qed

lemma fold_min_le: "fold min xs a \<le> (a :: int) \<and> (\<forall>x \<in> set xs. fold min xs a \<le> x)"
proof (induction xs arbitrary: a)
  case Nil
  then show ?case by simp
next
  case (Cons b xs)
  have "fold min xs (min b a) \<le> min b a" using Cons.IH by blast
  then show ?case using Cons.IH [of "min b a"] by auto
qed

lemma fold_max_ge: "(a :: int) \<le> fold max xs a \<and> (\<forall>x \<in> set xs. x \<le> fold max xs a)"
proof (induction xs arbitrary: a)
  case Nil
  then show ?case by simp
next
  case (Cons b xs)
  have "max b a \<le> fold max xs (max b a)" using Cons.IH by blast
  then show ?case using Cons.IH [of "max b a"] by auto
qed

lemma cum_below: "\<forall>e \<in> set S. x < fst e \<Longrightarrow> cum S x = 0"
  unfolding cum_def by (induction S) auto

lemma cum_above: "\<forall>e \<in> set S. fst e \<le> x \<Longrightarrow> cum S x = sum_list (map snd S)"
  unfolding cum_def by (induction S) auto

lemma mapSeqRev_least:
  "y \<le> mapSeq S (mapSeqRev S y) \<and> (\<forall>x. y \<le> mapSeq S x \<longrightarrow> mapSeqRev S y \<le> x)"
proof -
  define lo where "lo = fold min (map fst S) y"
  define hi where "hi = fold max (map fst S) (y - sum_list (map snd S))"
  have lo: "lo \<le> y" "\<forall>e \<in> set S. lo \<le> fst e"
    using fold_min_le [of "map fst S" y] by (simp_all add: lo_def)
  have hi: "y - sum_list (map snd S) \<le> hi" "\<forall>e \<in> set S. fst e \<le> hi"
    using fold_max_ge [of "y - sum_list (map snd S)" "map fst S"] by (simp_all add: hi_def)
  have below: "\<not> y \<le> mapSeq S x" if "x < lo" for x
  proof -
    have "cum S x = 0" using lo(2) that by (intro cum_below) auto
    then show ?thesis using that lo(1) by (simp add: mapSeq_def)
  qed
  have at_hi: "y \<le> mapSeq S hi"
    using cum_above [OF hi(2)] hi(1) by (simp add: mapSeq_def)
  have lohi: "lo \<le> hi" using below [of hi] at_hi by linarith
  have ex: "\<exists>x \<in> set [lo..hi]. y \<le> mapSeq S x" using at_hi lohi by auto
  then obtain m where m: "List.find (\<lambda>x. y \<le> mapSeq S x) [lo..hi] = Some m"
    by (cases "List.find (\<lambda>x. y \<le> mapSeq S x) [lo..hi]") (auto simp: find_None_iff)
  then obtain i where i: "i < length [lo..hi]" "y \<le> mapSeq S ([lo..hi] ! i)" "m = [lo..hi] ! i"
    "\<forall>j<i. \<not> y \<le> mapSeq S ([lo..hi] ! j)"
    unfolding find_Some_iff by blast
  have rev: "mapSeqRev S y = m"
    using m by (simp add: mapSeqRev_def lo_def hi_def Let_def)
  have mi: "m = lo + int i" using i(1,3) by (simp add: nth_upto)
  have least: "m \<le> x" if "y \<le> mapSeq S x" for x
  proof (rule ccontr)
    assume "\<not> m \<le> x"
    then have xm: "x < m" by simp
    have xlo: "lo \<le> x" using below [of x] that by linarith
    define j where "j = nat (x - lo)"
    have j: "j < i" using xm xlo mi by (simp add: j_def)
    have "[lo..hi] ! j = x" using j i(1) xlo by (simp add: nth_upto j_def)
    then show False using i(4) j that by auto
  qed
  show ?thesis using rev i(2,3) least by simp
qed

lemma mapSeqRev_roundtrip:
  assumes "\<forall>x' < x. mapSeq S x' < mapSeq S x"
  shows "mapSeqRev S (mapSeq S x) = x"
proof -
  let ?m = "mapSeqRev S (mapSeq S x)"
  have "mapSeq S x \<le> mapSeq S ?m" and "?m \<le> x"
    using mapSeqRev_least [of "mapSeq S x" S] by auto
  then show ?thesis using assms by (metis not_less order.order_iff_strict)
qed


text \<open>
  The two numbers of the specification's scenarios S4 and S5: after four bytes are
  inserted at 1011, sequence number 1021 maps to 1025, and the acknowledgement 1025 maps
  back to 1021.
\<close>

lemma scenario_S4_S5:
  "mapSeq [(1011, 4)] 1021 = 1025 \<and> mapSeqRev [(1011, 4)] 1025 = 1021"
  by code_simp

text \<open>
  C2.  For every entry list and every modified-space value \<open>y\<close>, \<open>mapSeqRev(y)\<close> is
  the smallest \<open>x\<close> with \<open>mapSeq(x) \<ge> y\<close>, so \<open>mapSeq(mapSeqRev(y)) \<ge> y\<close>.  For every
  committed entry list, that is, one whose removals take every original byte at most
  once, \<open>mapSeqRev(mapSeq(x)) = x\<close> for every original-space position \<open>x\<close> outside
  every removed region.
\<close>

theorem mapSeqRev_inverse:
  "(\<forall>y. y \<le> mapSeq S (mapSeqRev S y)) \<and>
   (\<forall>y x. y \<le> mapSeq S x \<longrightarrow> mapSeqRev S y \<le> x) \<and>
   (regions_disjoint S \<longrightarrow>
      (\<forall>x. \<not> in_removed_region S x \<longrightarrow> mapSeqRev S (mapSeq S x) = x))"
proof (intro conjI allI impI)
  fix y show "y \<le> mapSeq S (mapSeqRev S y)" using mapSeqRev_least by blast
next
  fix y x assume "y \<le> mapSeq S x"
  then show "mapSeqRev S y \<le> x" using mapSeqRev_least by blast
next
  fix x assume rd: "regions_disjoint S" and out: "\<not> in_removed_region S x"
  have "\<forall>x' < x. mapSeq S x' < mapSeq S x"
    using mapSeq_strict_outside [OF rd out] by blast
  then show "mapSeqRev S (mapSeq S x) = x" by (rule mapSeqRev_roundtrip)
qed

theorem mapSeqRev_inverse_witness:
  "regions_disjoint S_example \<and> \<not> in_removed_region S_example 1033 \<and>
   mapSeq S_example 1033 = 1034 \<and> mapSeqRev S_example 1034 = 1033 \<and>
   mapSeqRev S_example 1012 = 1011 \<and> mapSeq S_example 1011 = 1015"
proof -
  have rd: "regions_disjoint S_example" by (simp add: S_example_def)
  have out: "\<not> in_removed_region S_example 1033"
    by (simp add: S_example_def in_removed_region_def)
  have m: "mapSeq S_example 1033 = 1034"
    by (simp add: S_example_def mapSeq_def cum_def)
  have "mapSeqRev S_example (mapSeq S_example 1033) = 1033"
    using mapSeqRev_inverse [of S_example] rd out by blast
  then have r: "mapSeqRev S_example 1034 = 1033" by (simp only: m)
  have "mapSeqRev S_example 1012 = 1011" "mapSeq S_example 1011 = 1015"
    by code_simp+
  with rd out m r show ?thesis by simp
qed

text \<open>
  C3 as stated fails on a single removal of more than one byte: with four bytes removed
  at position 10, position 9 maps to 9 and position 10 maps to 6.
\<close>

theorem mapSeq_monotone_counterexample:
  "entries_inv [(10, - 4)] \<and> (9 :: int) < 10 \<and>
   mapSeq [(10, - 4)] 9 = 9 \<and> mapSeq [(10, - 4)] 10 = 6 \<and>
   \<not> mapSeq [(10, - 4)] 9 \<le> mapSeq [(10, - 4)] 10"
  by (simp add: mapSeq_def cum_def)

lemma entries_inv_sorted: "entries_inv S \<Longrightarrow> sorted_wrt (\<lambda>a b. fst a < fst b) S"
  by (induction S rule: entries_inv.induct) auto

lemma sorted_count:
  "sorted_wrt (\<lambda>a b. fst a < fst b) T \<Longrightarrow> (\<forall>e \<in> set T. a < fst e \<and> fst e \<le> b) \<Longrightarrow> a \<le> b \<Longrightarrow>
   int (length (T :: entry list)) \<le> b - a"
proof (induction T arbitrary: a)
  case Nil
  then show ?case by simp
next
  case (Cons e T)
  have "int (length T) \<le> b - fst e"
  proof (rule Cons.IH)
    show "sorted_wrt (\<lambda>a b. fst a < fst b) T" using Cons.prems(1) by simp
    show "\<forall>e' \<in> set T. fst e < fst e' \<and> fst e' \<le> b" using Cons.prems(1,2) by simp
    show "fst e \<le> b" using Cons.prems(2) by simp
  qed
  moreover have "a < fst e" using Cons.prems(2) by simp
  ultimately show ?case by simp
qed

lemma sum_ge_length:
  "\<forall>e \<in> set T. - 1 \<le> snd e \<Longrightarrow> - int (length (T :: entry list)) \<le> sum_list (map snd T)"
  by (induction T) auto

lemma filter_single:
  "sorted_wrt (\<lambda>a b. fst a < fst b) S \<Longrightarrow> e \<in> set S \<Longrightarrow>
   filter (\<lambda>e'. fst e - 1 < fst e' \<and> fst e' \<le> fst e) S = [e :: entry]"
proof (induction S)
  case Nil
  then show ?case by simp
next
  case (Cons s S)
  show ?case
  proof (cases "s = e")
    case True
    have "filter (\<lambda>e'. fst e - 1 < fst e' \<and> fst e' \<le> fst e) S = []"
      using Cons.prems(1) True by (auto simp: filter_empty_conv)
    then show ?thesis using True by simp
  next
    case False
    then have "e \<in> set S" using Cons.prems(2) by simp
    moreover have "sorted_wrt (\<lambda>a b. fst a < fst b) S" using Cons.prems(1) by simp
    ultimately have "filter (\<lambda>e'. fst e - 1 < fst e' \<and> fst e' \<le> fst e) S = [e]"
      by (rule Cons.IH [rotated])
    moreover have "fst s < fst e" using Cons.prems(1) \<open>e \<in> set S\<close> by simp
    ultimately show ?thesis by simp
  qed
qed

lemma mapSeq_monotone_small:
  assumes "entries_inv S" and small: "\<forall>e \<in> set S. - 1 \<le> snd e" and xy: "x < y"
  shows "mapSeq S x \<le> mapSeq S y"
proof -
  let ?T = "filter (\<lambda>e. x < fst e \<and> fst e \<le> y) S"
  have "sorted_wrt (\<lambda>a b. fst a < fst b) ?T"
    using entries_inv_sorted [OF assms(1)] by (rule sorted_wrt_filter)
  then have "int (length ?T) \<le> y - x"
    using xy by (intro sorted_count) auto
  moreover have "- int (length ?T) \<le> sum_list (map snd ?T)"
    using small by (intro sum_ge_length) auto
  moreover have "cum S y - cum S x = sum_list (map snd ?T)"
    using xy by (simp add: cum_diff)
  ultimately show ?thesis by (simp add: mapSeq_def)
qed

text \<open>
  Conversely, at an entry that removes more than one byte \<open>mapSeq\<close> steps down: if
  \<open>mapSeq\<close> is non-decreasing on a list that satisfies the invariant, every delta is at
  least \<open>- 1\<close>.
\<close>

lemma mapSeq_monotone_only_if:
  assumes "entries_inv S" and mono: "\<forall>x y. x < y \<longrightarrow> mapSeq S x \<le> mapSeq S y"
    and e: "e \<in> set S"
  shows "- 1 \<le> snd e"
proof -
  have "filter (\<lambda>e'. fst e - 1 < fst e' \<and> fst e' \<le> fst e) S = [e]"
    using entries_inv_sorted [OF assms(1)] e by (rule filter_single)
  then have "cum S (fst e) - cum S (fst e - 1) = snd e"
    using cum_diff [of "fst e - 1" "fst e" S] by simp
  moreover have "mapSeq S (fst e - 1) \<le> mapSeq S (fst e)" using mono by simp
  ultimately show ?thesis by (simp add: mapSeq_def)
qed

text \<open>
  C3 (as amended).  With \<open>mapSeq(x) = x + cum(x)\<close> and \<open>x < y\<close>,
  \<open>mapSeq(x) \<le> mapSeq(y)\<close> holds whenever the removed regions of the entry list are
  pairwise disjoint and \<open>y\<close> lies outside every removed region; and it holds for all
  \<open>x < y\<close> when the list satisfies the invariant and no entry removes more than one
  byte, in particular when all entries are insertions.
\<close>

theorem mapSeq_monotone_outside_removed:
  "(regions_disjoint S \<longrightarrow>
      (\<forall>x y. x < y \<and> \<not> in_removed_region S y \<longrightarrow> mapSeq S x \<le> mapSeq S y)) \<and>
   (entries_inv S \<and> (\<forall>e \<in> set S. - 1 \<le> snd e) \<longrightarrow>
      (\<forall>x y. x < y \<longrightarrow> mapSeq S x \<le> mapSeq S y))"
proof (intro conjI allI impI)
  fix x y assume "regions_disjoint S" and "x < y \<and> \<not> in_removed_region S y"
  then have "mapSeq S x < mapSeq S y" by (intro mapSeq_strict_outside) simp_all
  then show "mapSeq S x \<le> mapSeq S y" by simp
next
  fix x y :: int
  assume "entries_inv S \<and> (\<forall>e \<in> set S. - 1 \<le> snd e)" and "x < y"
  then show "mapSeq S x \<le> mapSeq S y" by (intro mapSeq_monotone_small) simp_all
qed

text \<open>
  In the first example three bytes are removed at 1030: position 1033 lies behind the
  removed region and maps above every earlier position, while position 1030, inside
  the region, maps below 1029.  In the second example one byte is removed at 1030, and
  1029 and 1030 map to the same value.
\<close>

theorem mapSeq_monotone_outside_removed_witness:
  "regions_disjoint S_example \<and> \<not> in_removed_region S_example 1033 \<and>
   mapSeq S_example 1029 \<le> mapSeq S_example 1033 \<and>
   mapSeq S_example 1029 = 1033 \<and> mapSeq S_example 1030 = 1031 \<and>
   entries_inv S_small \<and> mapSeq S_small 1029 \<le> mapSeq S_small 1030 \<and>
   mapSeq S_small 1029 = 1033 \<and> mapSeq S_small 1030 = 1033"
proof -
  have rd: "regions_disjoint S_example" by (simp add: S_example_def)
  have out: "\<not> in_removed_region S_example 1033"
    by (simp add: S_example_def in_removed_region_def)
  have a: "mapSeq S_example 1029 \<le> mapSeq S_example 1033"
    using mapSeq_monotone_outside_removed [of S_example] rd out by simp
  have v: "mapSeq S_example 1029 = 1033" "mapSeq S_example 1030 = 1031"
    by (simp_all add: S_example_def mapSeq_def cum_def)
  have inv: "entries_inv S_small" by (simp add: S_small_def)
  have small: "\<forall>e \<in> set S_small. - 1 \<le> snd e" by (simp add: S_small_def)
  have b: "mapSeq S_small 1029 \<le> mapSeq S_small 1030"
    using mapSeq_monotone_outside_removed [of S_small] inv small by simp
  have w: "mapSeq S_small 1029 = 1033" "mapSeq S_small 1030 = 1033"
    by (simp_all add: S_small_def mapSeq_def cum_def)
  show ?thesis using rd out a v inv b w by simp
qed

end
